theory Spec2Isabelle
  imports Main "HOL-Library.AList"
begin

section \<open>Python values\<close>

text \<open>
  The router of \<^verbatim>\<open>rapidsms_httprouter/router.py\<close> (class \<^verbatim>\<open>HttpRouter\<close>) is Python 2.
  It is modelled with the database and the trace of calls as explicit state, and with
  every exception that can leave a function as a value of its result.

  What the model takes from the router's surroundings:
  \<^item> a handler method is a function of the message it is given: it returns a value or
    raises, and leaves the message changed or not;
  \<^item> what a handler raises is an instance of \<^verbatim>\<open>Exception\<close>, the class that the
    \<^verbatim>\<open>except\<close> clauses around the handler calls name;
  \<^item> \<^verbatim>\<open>app.exception()\<close>, the logging call of \<^verbatim>\<open>LoggerMixin\<close>, returns, and so do the
    other logging calls and \<^verbatim>\<open>traceback.print_exc\<close>, which are left out;
  \<^item> \<^verbatim>\<open>sys.stdout\<close> takes every byte string (so the \<^verbatim>\<open>print\<close> of the literal at line
    203 returns, and is left out), and encodes a \<^verbatim>\<open>unicode\<close> with ASCII or with UTF-8;
    \<^verbatim>\<open>str\<close> and \<^verbatim>\<open>unicode\<close> of a \<^verbatim>\<open>Connection\<close> return;
  \<^item> the database does what it is asked: \<^verbatim>\<open>create\<close>, \<^verbatim>\<open>get_or_create\<close> and
    \<^verbatim>\<open>save\<close> do not fail.

  A handler method may return any object; the router tests the result with
  \<^verbatim>\<open>is True\<close> and \<^verbatim>\<open>is False\<close>, which hold for the two boolean singletons only.
\<close>

datatype pyval = PyNone | PyBool bool | PyInt int | PyString string

text \<open>\<^verbatim>\<open>bool(v)\<close>: the truth value Python gives an object.\<close>

fun truthy :: "pyval \<Rightarrow> bool" where
  "truthy PyNone = False"
| "truthy (PyBool b) = b"
| "truthy (PyInt i) = (i \<noteq> 0)"
| "truthy (PyString s) = (s \<noteq> [])"

definition is_True :: "pyval \<Rightarrow> bool" where
  "is_True v = (v = PyBool True)"

definition is_False :: "pyval \<Rightarrow> bool" where
  "is_False v = (v = PyBool False)"

text \<open>
  Python 2 has two string types: \<^verbatim>\<open>str\<close> (bytes) and \<^verbatim>\<open>unicode\<close> (code points).
  Django hands text fields and request parameters over as \<^verbatim>\<open>unicode\<close>.
\<close>

datatype pytext = PyStr string | PyUnicode "nat list"

text \<open>
  Exceptions. Every constructor is an instance of \<^verbatim>\<open>Exception\<close>, the class the router's
  \<^verbatim>\<open>except Exception\<close> clauses name (\<^verbatim>\<open>StopIteration\<close> is one in Python 2).
\<close>

datatype exn = UnicodeEncodeError | StopIteration | Exception string

datatype outcome = Return pyval | Raise exn

text \<open>
  \<^verbatim>\<open>str(v)\<close> of a text: a \<^verbatim>\<open>str\<close> is returned as it is, a \<^verbatim>\<open>unicode\<close> is encoded with
  the ASCII codec, which raises on a code point above 127.
\<close>

fun py_str :: "pytext \<Rightarrow> exn + string" where
  "py_str (PyStr s) = Inr s"
| "py_str (PyUnicode cs) =
     (if list_all (\<lambda>c. c < 128) cs then Inr (map char_of cs) else Inl UnicodeEncodeError)"

text \<open>
  \<^verbatim>\<open>print x\<close>. A \<^verbatim>\<open>str\<close> is written as it is. A \<^verbatim>\<open>unicode\<close> is encoded first, with the
  encoding of \<^verbatim>\<open>sys.stdout\<close> (ASCII when \<^verbatim>\<open>sys.stdout.encoding\<close> is \<^verbatim>\<open>None\<close>, as it is
  for a pipe or a file), and that raises on a character the encoding lacks. The result is
  the exception, or \<open>None\<close> when the statement returns.
\<close>

datatype encoding = ASCII | UTF8

fun encodes :: "encoding \<Rightarrow> nat \<Rightarrow> bool" where
  "encodes ASCII c = (c < 128)"
| "encodes UTF8 c = True"

fun py_print :: "encoding \<Rightarrow> pytext \<Rightarrow> exn option" where
  "py_print enc (PyStr s) = None"
| "py_print enc (PyUnicode cs) =
     (if list_all (encodes enc) cs then None else Some UnicodeEncodeError)"

text \<open>The code points of an ASCII literal, and \<^verbatim>\<open>str\<close> of a boolean.\<close>

definition unicode_of :: "string \<Rightarrow> nat list" where
  "unicode_of s = map of_char s"

definition str_bool :: "bool \<Rightarrow> string" where
  "str_bool b = (if b then ''True'' else ''False'')"

text \<open>\<^verbatim>\<open>str(n)\<close> of a non-negative integer: its decimal digits.\<close>

fun str_nat :: "nat \<Rightarrow> string" where
  "str_nat n =
     (if n < 10 then [char_of (48 + n)] else str_nat (n div 10) @ [char_of (48 + n mod 10)])"

definition str_int :: "int \<Rightarrow> string" where
  "str_int i = (if i < 0 then CHR ''-'' # str_nat (nat (- i)) else str_nat (nat i))"

text \<open>
  \<^verbatim>\<open>urllib.quote_plus(s)\<close>: letters, digits and \<^verbatim>\<open>_.-\<close> stay, a space becomes
  \<^verbatim>\<open>+\<close>, every other byte becomes \<^verbatim>\<open>%XX\<close>.
\<close>

definition always_safe :: string where
  "always_safe =
     ''ABCDEFGHIJKLMNOPQRSTUVWXYZabcdefghijklmnopqrstuvwxyz0123456789_.-''"

definition hex_digit :: "nat \<Rightarrow> char" where
  "hex_digit n = ''0123456789ABCDEF'' ! (n mod 16)"

definition quote_char :: "char \<Rightarrow> string" where
  "quote_char c =
     (if c \<in> set always_safe then [c]
      else if c = CHR '' '' then ''+''
      else [CHR ''%'', hex_digit (of_char c div 16), hex_digit (of_char c mod 16)])"

definition quote_plus :: "string \<Rightarrow> string" where
  "quote_plus s = concat (map quote_char s)"

section \<open>The data model\<close>

text \<open>
  A \<^verbatim>\<open>Connection\<close> row: the backend (by its name, whose \<^verbatim>\<open>str\<close> Django encodes in
  UTF-8 and so never fails) and the identity of the contact.
\<close>

record connection =
  backend :: string
  identity :: pytext

text \<open>
  A \<^verbatim>\<open>Message\<close> row. Directions are \<^verbatim>\<open>'I'\<close> and \<^verbatim>\<open>'O'\<close>; statuses are \<^verbatim>\<open>'R'\<close>
  (received), \<^verbatim>\<open>'H'\<close> (handled), \<^verbatim>\<open>'P'\<close> (pending), \<^verbatim>\<open>'S'\<close> (sent), \<^verbatim>\<open>'Q'\<close>
  (queued) and \<^verbatim>\<open>'C'\<close> (cancelled).
\<close>

record db_message =
  pk :: nat
  msg_connection :: connection
  msg_text :: pytext
  direction :: char
  status :: char
  in_response_to :: "nat option"

text \<open>An \<^verbatim>\<open>OutgoingMessage\<close>: a reply that a handler attached to the incoming message.\<close>

record reply =
  out_connection :: connection
  out_text :: pytext

text \<open>
  The transient \<^verbatim>\<open>IncomingMessage\<close> that is passed through the phases, with the
  \<^verbatim>\<open>db_message\<close> attribute the router adds (held by its primary key).
\<close>

record envelope =
  in_connection :: connection
  in_text :: pytext
  handled :: bool
  responses :: "reply list"
  processed :: bool
  db_message_pk :: nat

datatype phase = Filter | Parse | Handle | Default | Cleanup

definition incoming_phases :: "phase list" where
  "incoming_phases = [Filter, Parse, Handle, Default, Cleanup]"

text \<open>
  An app (handler). Each method gets the message, may change it, and returns or raises.
  A method the app lacks is one that raises (\<^verbatim>\<open>getattr\<close> fails inside the \<^verbatim>\<open>try\<close>).
  \<^verbatim>\<open>app.exception()\<close> is the logging call of \<^verbatim>\<open>LoggerMixin\<close>; it returns.
\<close>

record app =
  app_name :: string
  app_filter :: "envelope \<Rightarrow> outcome \<times> envelope"
  app_parse :: "envelope \<Rightarrow> outcome \<times> envelope"
  app_handle :: "envelope \<Rightarrow> outcome \<times> envelope"
  app_default :: "envelope \<Rightarrow> outcome \<times> envelope"
  app_cleanup :: "envelope \<Rightarrow> outcome \<times> envelope"
  app_outgoing :: "reply \<Rightarrow> outcome \<times> reply"

text \<open>\<^verbatim>\<open>getattr(app, phase)\<close> for the five incoming phases.\<close>

fun getattr :: "app \<Rightarrow> phase \<Rightarrow> envelope \<Rightarrow> outcome \<times> envelope" where
  "getattr a Filter = app_filter a"
| "getattr a Parse = app_parse a"
| "getattr a Handle = app_handle a"
| "getattr a Default = app_default a"
| "getattr a Cleanup = app_cleanup a"

text \<open>
  What the router does to its collaborators, in order: a call of a handler's phase method
  with its outcome, a call of a handler's \<^verbatim>\<open>outgoing\<close> method, a call of a handler's
  \<^verbatim>\<open>exception\<close> hook, and a call of \<^verbatim>\<open>send_message\<close> for the message with that key.
\<close>

datatype event =
  Call string phase outcome
| CallOutgoing string outcome
| ExceptionHook string
| SendMessage nat

text \<open>
  The database (backends, connections, messages with the next free primary key) and the
  trace of events.
\<close>

record state =
  backends :: "string list"
  connections :: "connection list"
  messages :: "nat \<rightharpoonup> db_message"
  next_pk :: nat
  log :: "event list"

text \<open>
  The settings and the surroundings of the router: \<^verbatim>\<open>ROUTER_URL\<close> (\<open>None\<close> when the
  attribute is missing); what \<^verbatim>\<open>urlopen(settings.ROUTER_URL % params)\<close> does for a
  template and quoted parameters, a response with a status code or an exception; the
  encoding of \<^verbatim>\<open>sys.stdout\<close>; and \<^verbatim>\<open>str\<close> and \<^verbatim>\<open>unicode\<close> of a \<^verbatim>\<open>Connection\<close>, a class of
  \<^verbatim>\<open>rapidsms.models\<close>.
\<close>

datatype url_outcome = Response int | URLError

record settings =
  ROUTER_URL :: "string option"
  urlopen :: "string \<Rightarrow> (string \<times> string) list \<Rightarrow> url_outcome"
  stdout_encoding :: encoding
  str_connection :: "connection \<Rightarrow> string"
  unicode_connection :: "connection \<Rightarrow> nat list"

section \<open>The message store\<close>

text \<open>\<^verbatim>\<open>get_or_create\<close>: the row, whether it was created, and the database.\<close>

definition backend_get_or_create :: "string \<Rightarrow> state \<Rightarrow> string \<times> bool \<times> state" where
  "backend_get_or_create name st =
     (if name \<in> set (backends st) then (name, False, st)
      else (name, True, st\<lparr>backends := backends st @ [name]\<rparr>))"

definition connection_get_or_create ::
  "string \<Rightarrow> pytext \<Rightarrow> state \<Rightarrow> connection \<times> bool \<times> state" where
  "connection_get_or_create b contact st =
     (let c = \<lparr>backend = b, identity = contact\<rparr>
      in if c \<in> set (connections st) then (c, False, st)
         else (c, True, st\<lparr>connections := connections st @ [c]\<rparr>))"

text \<open>\<^verbatim>\<open>Message.objects.create(...)\<close>: a new row under the next primary key.\<close>

definition message_create ::
  "connection \<Rightarrow> pytext \<Rightarrow> char \<Rightarrow> char \<Rightarrow> nat option \<Rightarrow> state \<Rightarrow> db_message \<times> state" where
  "message_create c t d s src st =
     (let m = \<lparr>pk = next_pk st, msg_connection = c, msg_text = t, direction = d, status = s,
                in_response_to = src\<rparr>
      in (m, st\<lparr>messages := (messages st)(next_pk st \<mapsto> m), next_pk := Suc (next_pk st)\<rparr>))"

text \<open>\<^verbatim>\<open>message.save()\<close>: the row of that key is overwritten.\<close>

definition save :: "db_message \<Rightarrow> state \<Rightarrow> state" where
  "save m st = st\<lparr>messages := (messages st)(pk m \<mapsto> m)\<rparr>"

text \<open>
  \<^verbatim>\<open>"CREATING CONNECTION %s %s" % (contact, created)\<close> (line 41): a \<^verbatim>\<open>unicode\<close> when the
  contact is one, a \<^verbatim>\<open>str\<close> otherwise.
\<close>

definition creating_connection :: "pytext \<Rightarrow> bool \<Rightarrow> pytext" where
  "creating_connection contact created =
     (case contact of
        PyStr s \<Rightarrow> PyStr (''CREATING CONNECTION '' @ s @ '' '' @ str_bool created)
      | PyUnicode cs \<Rightarrow>
          PyUnicode (unicode_of ''CREATING CONNECTION '' @ cs @ unicode_of ('' '' @ str_bool created)))"

text \<open>
  \<^verbatim>\<open>add_message\<close> (lines 29 to 47). The \<^verbatim>\<open>print\<close> of line 41 stands between the
  connection and the message: when it raises, no message row is created. The direction
  that is stored is the literal \<^verbatim>\<open>'I'\<close>; the parameter is not used.
\<close>

definition add_message ::
  "settings \<Rightarrow> string \<Rightarrow> pytext \<Rightarrow> pytext \<Rightarrow> char \<Rightarrow> char \<Rightarrow> state \<Rightarrow>
     (exn + db_message) \<times> state" where
  "add_message cfg backend_name contact t d s st =
     (let (b, created_backend, st1) = backend_get_or_create backend_name st;
          (c, created, st2) = connection_get_or_create b contact st1
      in case py_print (stdout_encoding cfg) (creating_connection contact created) of
           Some e \<Rightarrow> (Inl e, st2)
         | None \<Rightarrow> (let (m, st3) = message_create c t CHR ''I'' s None st2 in (Inr m, st3)))"

definition add_outgoing ::
  "connection \<Rightarrow> pytext \<Rightarrow> nat option \<Rightarrow> char \<Rightarrow> state \<Rightarrow> db_message \<times> state" where
  "add_outgoing c t source s st = message_create c t CHR ''O'' s source st"

section \<open>Inbound dispatch\<close>

text \<open>
  The loop over the apps within one phase (lines 83 to 119). The result says whether the
  loop ended (by exhaustion or by \<^verbatim>\<open>break\<close>) or raised \<^verbatim>\<open>StopIteration\<close>.
  The local \<^verbatim>\<open>handled\<close> is reset to \<^verbatim>\<open>False\<close> before every call and keeps that value
  when the call raises.
\<close>

datatype signal = Completed | Stopped

fun run_apps :: "phase \<Rightarrow> app list \<Rightarrow> envelope \<Rightarrow> signal \<times> envelope \<times> event list" where
  "run_apps ph [] msg = (Completed, msg, [])"
| "run_apps ph (a # as) msg =
     (let (out, msg1) = getattr a ph msg;
          (result, evs) =
            (case out of
               Return v \<Rightarrow> (v, [Call (app_name a) ph out])
             | Raise e \<Rightarrow> (PyBool False, [Call (app_name a) ph out, ExceptionHook (app_name a)]))
      in if ph = Filter \<and> is_True result then (Stopped, msg1, evs)
         else if ph = Handle \<and> is_True result then (Completed, msg1\<lparr>handled := True\<rparr>, evs)
         else if ph = Default \<and> is_True result then (Completed, msg1, evs)
         else (let (sig, msg2, evs2) = run_apps ph as msg1 in (sig, msg2, evs @ evs2)))"

text \<open>
  The loop over the phases (lines 75 to 122). In the default phase a message that is
  already handled leaves the loop over the phases (\<^verbatim>\<open>break\<close>), and a
  \<^verbatim>\<open>StopIteration\<close> from the filter phase is caught outside the loop.
\<close>

fun run_phases :: "phase list \<Rightarrow> app list \<Rightarrow> envelope \<Rightarrow> envelope \<times> event list" where
  "run_phases [] apps msg = (msg, [])"
| "run_phases (ph # phs) apps msg =
     (if ph = Default \<and> handled msg then (msg, [])
      else (case run_apps ph apps msg of
              (Stopped, msg1, evs) \<Rightarrow> (msg1, evs)
            | (Completed, msg1, evs) \<Rightarrow>
                (let (msg2, evs2) = run_phases phs apps msg1 in (msg2, evs @ evs2))))"

section \<open>Delivery\<close>

text \<open>A value of the parameter dictionary of \<^verbatim>\<open>send_message\<close>, and its \<^verbatim>\<open>str\<close>.\<close>

datatype param = TextParam pytext | IntParam int

fun str_param :: "param \<Rightarrow> exn + string" where
  "str_param (TextParam t) = py_str t"
| "str_param (IntParam i) = Inr (str_int i)"

text \<open>
  \<^verbatim>\<open>for k, v in params.items(): params[k] = quote_plus(str(v))\<close>: the first value whose
  \<^verbatim>\<open>str\<close> raises ends the loop with that exception.
\<close>

fun quote_params :: "(string \<times> param) list \<Rightarrow> exn + (string \<times> string) list" where
  "quote_params [] = Inr []"
| "quote_params ((k, v) # kvs) =
     (case str_param v of
        Inl e \<Rightarrow> Inl e
      | Inr s \<Rightarrow> (case quote_params kvs of
                    Inl e \<Rightarrow> Inl e
                  | Inr qs \<Rightarrow> Inr ((k, quote_plus s) # qs)))"

definition build_params :: "db_message \<Rightarrow> (string \<times> param) list \<Rightarrow> (string \<times> param) list" where
  "build_params msg kwargs =
     fold (\<lambda>(k, v). AList.update k v) kwargs
       [(''backend'', TextParam (PyStr (backend (msg_connection msg)))),
        (''recipient'', TextParam (identity (msg_connection msg))),
        (''text'', TextParam (msg_text msg)),
        (''id'', IntParam (int (pk msg)))]"

text \<open>
  \<^verbatim>\<open>getattr(settings, 'ROUTER_URL', None)\<close>, and its test: a missing attribute and an
  empty string are both false.
\<close>

definition router_url :: "settings \<Rightarrow> string" where
  "router_url cfg = (case ROUTER_URL cfg of None \<Rightarrow> [] | Some u \<Rightarrow> u)"

definition router_url_unset :: "settings \<Rightarrow> bool" where
  "router_url_unset cfg = (router_url cfg = [])"

text \<open>
  \<^verbatim>\<open>send_message\<close> (lines 196 to 238). The result is the exception that reaches the caller,
  or the message object as the function leaves it. The parameters are quoted before the
  \<^verbatim>\<open>try\<close> block is entered; \<^verbatim>\<open>int(code/100) == 2\<close> is an integer division.
\<close>

definition send_message ::
  "settings \<Rightarrow> (string \<times> param) list \<Rightarrow> db_message \<Rightarrow> state \<Rightarrow> (exn + db_message) \<times> state" where
  "send_message cfg kwargs msg st0 =
     (let st = st0\<lparr>log := log st0 @ [SendMessage (pk msg)]\<rparr>
      in if router_url_unset cfg
         then (let msg1 = msg\<lparr>status := CHR ''Q''\<rparr> in (Inr msg1, save msg1 st))
         else (case quote_params (build_params msg kwargs) of
                 Inl e \<Rightarrow> (Inl e, st)
               | Inr params \<Rightarrow>
                   (case urlopen cfg (router_url cfg) params of
                      Response code \<Rightarrow>
                        (if code div 100 = 2
                         then (let msg1 = msg\<lparr>status := CHR ''S''\<rparr> in (Inr msg1, save msg1 st))
                         else (let msg1 = msg\<lparr>status := CHR ''Q''\<rparr> in (Inr msg1, save msg1 st)))
                    | URLError \<Rightarrow>
                        (let msg1 = msg\<lparr>status := CHR ''Q''\<rparr> in (Inr msg1, save msg1 st)))))"

section \<open>Outbound dispatch\<close>

text \<open>
  The loop over the apps of the outgoing phase (lines 172 to 188), run on the reversed
  list. \<^verbatim>\<open>continue_sending\<close> is set once before the loop; a call that raises leaves it
  as the previous call set it. The boolean of the result is \<open>False\<close> when the loop
  ended in the cancelling \<^verbatim>\<open>return False\<close>.
\<close>

fun run_outgoing :: "app list \<Rightarrow> pyval \<Rightarrow> reply \<Rightarrow> bool \<times> reply \<times> event list" where
  "run_outgoing [] continue_sending msg = (True, msg, [])"
| "run_outgoing (a # as) continue_sending msg =
     (let (out, msg1) = app_outgoing a msg;
          (continue_sending1, evs) =
            (case out of
               Return v \<Rightarrow> (v, [CallOutgoing (app_name a) out])
             | Raise e \<Rightarrow>
                 (continue_sending, [CallOutgoing (app_name a) out, ExceptionHook (app_name a)]))
      in if is_False continue_sending1 then (False, msg1, evs)
         else (let (ok, msg2, evs2) = run_outgoing as continue_sending1 msg1
               in (ok, msg2, evs @ evs2)))"

text \<open>What \<^verbatim>\<open>handle_outgoing\<close> returns: \<^verbatim>\<open>False\<close>, or the message object.\<close>

datatype outgoing_result = ReturnedFalse | ReturnedMessage db_message

text \<open>
  \<^verbatim>\<open>handle_outgoing\<close> (lines 152 to 194); \<^verbatim>\<open>outgoing_phases\<close> has the one phase
  \<^verbatim>\<open>outgoing\<close>.
\<close>

definition handle_outgoing ::
  "settings \<Rightarrow> app list \<Rightarrow> reply \<Rightarrow> nat option \<Rightarrow> state \<Rightarrow> (exn + outgoing_result) \<times> state" where
  "handle_outgoing cfg apps msg source st =
     (let (db_message, st1) = add_outgoing (out_connection msg) (out_text msg) source CHR ''P'' st;
          (ok, msg1, evs) = run_outgoing (rev apps) (PyBool True) msg;
          st2 = st1\<lparr>log := log st1 @ evs\<rparr>
      in if \<not> ok then (Inr ReturnedFalse, save (db_message\<lparr>status := CHR ''C''\<rparr>) st2)
         else (case send_message cfg [] db_message st2 of
                 (Inl e, st3) \<Rightarrow> (Inl e, st3)
               | (Inr sent, st3) \<Rightarrow> (Inr (ReturnedMessage sent), st3)))"

text \<open>
  The loop that drains \<^verbatim>\<open>msg.responses\<close> (lines 130 to 132). The outgoing handlers get
  the reply, not the incoming message, so the list only shrinks.
\<close>

fun send_responses ::
  "settings \<Rightarrow> app list \<Rightarrow> reply list \<Rightarrow> nat \<Rightarrow> state \<Rightarrow> (exn + unit) \<times> state" where
  "send_responses cfg apps [] source st = (Inr (), st)"
| "send_responses cfg apps (r # rs) source st =
     (case handle_outgoing cfg apps r (Some source) st of
        (Inl e, st1) \<Rightarrow> (Inl e, st1)
      | (Inr res, st1) \<Rightarrow> send_responses cfg apps rs source st1)"

text \<open>The \<^verbatim>\<open>IncomingMessage\<close> of lines 67 to 71.\<close>

definition new_envelope :: "db_message \<Rightarrow> pytext \<Rightarrow> envelope" where
  "new_envelope db_message t =
     \<lparr>in_connection = msg_connection db_message, in_text = t, handled = False,
      responses = [], processed = False, db_message_pk = pk db_message\<rparr>"

text \<open>
  \<^verbatim>\<open>"Incoming (%s): %s" % (msg.connection, msg.text)\<close> (line 74): a \<^verbatim>\<open>unicode\<close> when
  the text is one, with \<^verbatim>\<open>unicode\<close> of the connection in it, and a \<^verbatim>\<open>str\<close> otherwise.
\<close>

definition incoming_line :: "settings \<Rightarrow> connection \<Rightarrow> pytext \<Rightarrow> pytext" where
  "incoming_line cfg c t =
     (case t of
        PyStr s \<Rightarrow> PyStr (''Incoming ('' @ str_connection cfg c @ ''): '' @ s)
      | PyUnicode cs \<Rightarrow>
          PyUnicode (unicode_of ''Incoming ('' @ unicode_connection cfg c @ unicode_of ''): '' @ cs))"

text \<open>
  \<^verbatim>\<open>handle_incoming\<close> (lines 59 to 138). The \<^verbatim>\<open>print\<close> of line 74 comes after the row
  is created with status \<^verbatim>\<open>'R'\<close> and before the \<^verbatim>\<open>try\<close> of line 75: when it raises, or
  when \<^verbatim>\<open>add_message\<close> does, the exception leaves \<^verbatim>\<open>handle_incoming\<close> and no phase runs.
\<close>

definition handle_incoming ::
  "settings \<Rightarrow> app list \<Rightarrow> string \<Rightarrow> pytext \<Rightarrow> pytext \<Rightarrow> state \<Rightarrow> (exn + db_message) \<times> state" where
  "handle_incoming cfg apps backend_name sender t st =
     (case add_message cfg backend_name sender t CHR ''I'' CHR ''R'' st of
        (Inl e, st1) \<Rightarrow> (Inl e, st1)
      | (Inr db_message, st1) \<Rightarrow>
          (case py_print (stdout_encoding cfg) (incoming_line cfg (msg_connection db_message) t) of
             Some e \<Rightarrow> (Inl e, st1)
           | None \<Rightarrow>
               (let (msg1, evs) = run_phases incoming_phases apps (new_envelope db_message t);
                    st2 = st1\<lparr>log := log st1 @ evs\<rparr>;
                    db_message1 = db_message\<lparr>status := CHR ''H''\<rparr>;
                    st3 = save db_message1 st2
                in (case send_responses cfg apps (responses msg1) (pk db_message1) st3 of
                      (Inl e, st4) \<Rightarrow> (Inl e, st4)
                    | (Inr u, st4) \<Rightarrow> (Inr db_message1, st4)))))"

text \<open>Both \<^verbatim>\<open>print\<close> statements of an inbound dispatch return.\<close>

definition prints_return :: "settings \<Rightarrow> string \<Rightarrow> pytext \<Rightarrow> pytext \<Rightarrow> state \<Rightarrow> bool" where
  "prints_return cfg backend_name sender t st =
     (case add_message cfg backend_name sender t CHR ''I'' CHR ''R'' st of
        (Inl e, st1) \<Rightarrow> False
      | (Inr db_message, st1) \<Rightarrow>
          py_print (stdout_encoding cfg) (incoming_line cfg (msg_connection db_message) t) = None)"

section \<open>Traces\<close>

text \<open>
  The names of the handlers whose method of a phase was called, in the order of the calls,
  and the same for the outgoing methods.
\<close>

fun calls_in :: "phase \<Rightarrow> event list \<Rightarrow> string list" where
  "calls_in ph [] = []"
| "calls_in ph (Call n p out # evs) = (if p = ph then n # calls_in ph evs else calls_in ph evs)"
| "calls_in ph (ev # evs) = calls_in ph evs"

fun outgoing_calls :: "event list \<Rightarrow> string list" where
  "outgoing_calls [] = []"
| "outgoing_calls (CallOutgoing n out # evs) = n # outgoing_calls evs"
| "outgoing_calls (ev # evs) = outgoing_calls evs"

text \<open>
  Every call that raises is followed at once by the \<^verbatim>\<open>exception\<close> hook of the same
  handler, and the hook is called nowhere else.
\<close>

fun raised :: "event \<Rightarrow> string option" where
  "raised (Call n ph (Raise e)) = Some n"
| "raised (CallOutgoing n (Raise e)) = Some n"
| "raised ev = None"

fun hooks_follow :: "event list \<Rightarrow> bool" where
  "hooks_follow [] = True"
| "hooks_follow (ExceptionHook n # evs) = False"
| "hooks_follow (ev # evs) =
     (case raised ev of
        None \<Rightarrow> hooks_follow evs
      | Some n \<Rightarrow> (case evs of
                    ExceptionHook n' # evs' \<Rightarrow> n' = n \<and> hooks_follow evs'
                  | _ \<Rightarrow> False))"

text \<open>A veto: a call of a filter method that returned \<open>True\<close>.\<close>

fun is_veto :: "event \<Rightarrow> bool" where
  "is_veto (Call n Filter (Return (PyBool True))) = True"
| "is_veto ev = False"

definition vetoed :: "event list \<Rightarrow> bool" where
  "vetoed evs = list_ex is_veto evs"

fun is_call :: "event \<Rightarrow> bool" where
  "is_call (Call n ph out) = True"
| "is_call ev = False"

text \<open>The events that a call of the router added to the log.\<close>

definition trace :: "state \<Rightarrow> state \<Rightarrow> event list" where
  "trace st st' = drop (length (log st)) (log st')"

section \<open>Handlers that return where they raised, or return False\<close>

text \<open>
  Two ways to change a handler, to compare runs: \<open>absorb\<close> makes every method of an
  inbound phase return \<^verbatim>\<open>None\<close> where it raised; \<open>falsify\<close> makes the filter and the
  handle method return \<open>False\<close> where they returned anything but \<open>True\<close>. The events of
  the changed run are those of the original run, changed the same way.
\<close>

definition absorb_outcome :: "outcome \<Rightarrow> outcome" where
  "absorb_outcome out = (case out of Return v \<Rightarrow> Return v | Raise e \<Rightarrow> Return PyNone)"

definition absorb_method :: "('m \<Rightarrow> outcome \<times> 'm) \<Rightarrow> 'm \<Rightarrow> outcome \<times> 'm" where
  "absorb_method f = (\<lambda>m. (absorb_outcome (fst (f m)), snd (f m)))"

definition absorb :: "app \<Rightarrow> app" where
  "absorb a = a\<lparr>app_filter := absorb_method (app_filter a),
                app_parse := absorb_method (app_parse a),
                app_handle := absorb_method (app_handle a),
                app_default := absorb_method (app_default a),
                app_cleanup := absorb_method (app_cleanup a)\<rparr>"

fun absorb_event :: "event \<Rightarrow> event list" where
  "absorb_event (Call n ph out) = [Call n ph (absorb_outcome out)]"
| "absorb_event (ExceptionHook n) = []"
| "absorb_event ev = [ev]"

definition calm :: "event list \<Rightarrow> event list" where
  "calm evs = concat (map absorb_event evs)"

definition as_false :: "pyval \<Rightarrow> pyval" where
  "as_false v = (if is_True v then v else PyBool False)"

definition falsify_outcome :: "outcome \<Rightarrow> outcome" where
  "falsify_outcome out = (case out of Return v \<Rightarrow> Return (as_false v) | Raise e \<Rightarrow> Raise e)"

definition falsify_method :: "('m \<Rightarrow> outcome \<times> 'm) \<Rightarrow> 'm \<Rightarrow> outcome \<times> 'm" where
  "falsify_method f = (\<lambda>m. (falsify_outcome (fst (f m)), snd (f m)))"

definition falsify :: "app \<Rightarrow> app" where
  "falsify a = a\<lparr>app_filter := falsify_method (app_filter a),
                 app_handle := falsify_method (app_handle a)\<rparr>"

fun falsify_event :: "event \<Rightarrow> event" where
  "falsify_event (Call n ph out) =
     Call n ph (if ph = Filter \<or> ph = Handle then falsify_outcome out else out)"
| "falsify_event ev = ev"

section \<open>Example handlers and runs\<close>

text \<open>
  \<^verbatim>\<open>AppBase\<close>, whose methods all return \<^verbatim>\<open>None\<close>, and handlers that override one or two
  methods; \<open>respond\<close> is \<^verbatim>\<open>msg.respond(text)\<close>. Every method of \<open>faulty_app\<close> raises,
  the filter method a \<^verbatim>\<open>StopIteration\<close> of its own.
\<close>

definition base_app :: "string \<Rightarrow> app" where
  "base_app n =
     \<lparr>app_name = n,
      app_filter = (\<lambda>m. (Return PyNone, m)),
      app_parse = (\<lambda>m. (Return PyNone, m)),
      app_handle = (\<lambda>m. (Return PyNone, m)),
      app_default = (\<lambda>m. (Return PyNone, m)),
      app_cleanup = (\<lambda>m. (Return PyNone, m)),
      app_outgoing = (\<lambda>m. (Return PyNone, m))\<rparr>"

definition respond :: "envelope \<Rightarrow> pytext \<Rightarrow> envelope" where
  "respond m t = m\<lparr>responses := responses m @ [\<lparr>out_connection = in_connection m, out_text = t\<rparr>]\<rparr>"

definition echo_app :: app where
  "echo_app = (base_app ''echo'')
     \<lparr>app_handle := (\<lambda>m. (Return (PyBool True), respond m (PyStr ''hi back'')))\<rparr>"

definition veto_app :: app where
  "veto_app = (base_app ''veto'')\<lparr>app_filter := (\<lambda>m. (Return (PyBool True), m))\<rparr>"

definition faulty_app :: app where
  "faulty_app =
     \<lparr>app_name = ''faulty'',
      app_filter = (\<lambda>m. (Raise StopIteration, m)),
      app_parse = (\<lambda>m. (Raise (Exception ''boom''), m)),
      app_handle = (\<lambda>m. (Raise (Exception ''boom''), m)),
      app_default = (\<lambda>m. (Raise (Exception ''boom''), m)),
      app_cleanup = (\<lambda>m. (Raise (Exception ''boom''), m)),
      app_outgoing = (\<lambda>m. (Raise (Exception ''boom''), m))\<rparr>"

definition cancel_app :: app where
  "cancel_app = (base_app ''cancel'')\<lparr>app_outgoing := (\<lambda>m. (Return (PyBool False), m))\<rparr>"

definition zero_app :: app where
  "zero_app = (base_app ''zero'')\<lparr>app_outgoing := (\<lambda>m. (Return (PyInt 0), m))\<rparr>"

definition truthy_app :: app where
  "truthy_app = (base_app ''truthy'')
     \<lparr>app_filter := (\<lambda>m. (Return (PyInt 1), m)),
      app_handle := (\<lambda>m. (Return (PyString ''yes''), m))\<rparr>"

definition empty_state :: state where
  "empty_state = \<lparr>backends = [], connections = [], messages = Map.empty, next_pk = 1, log = []\<rparr>"

text \<open>
  A \<^verbatim>\<open>Connection\<close> shown as \<^verbatim>\<open>"%s via %s" % (identity, backend)\<close>, a gateway that
  answers with a fixed status code, and no gateway at all; \<^verbatim>\<open>sys.stdout\<close> is a pipe,
  which encodes with ASCII.
\<close>

definition via_str :: "connection \<Rightarrow> string" where
  "via_str c =
     (case identity c of PyStr s \<Rightarrow> s | PyUnicode cs \<Rightarrow> map char_of cs) @ '' via '' @ backend c"

definition via_unicode :: "connection \<Rightarrow> nat list" where
  "via_unicode c =
     (case identity c of PyStr s \<Rightarrow> unicode_of s | PyUnicode cs \<Rightarrow> cs) @
     unicode_of ('' via '' @ backend c)"

definition gateway :: "int \<Rightarrow> settings" where
  "gateway code = \<lparr>ROUTER_URL = Some ''http://gw/send?to=%(recipient)s&text=%(text)s'',
                   urlopen = (\<lambda>url params. Response code),
                   stdout_encoding = ASCII,
                   str_connection = via_str, unicode_connection = via_unicode\<rparr>"

definition no_gateway :: settings where
  "no_gateway = \<lparr>ROUTER_URL = None, urlopen = (\<lambda>url params. URLError),
                 stdout_encoding = ASCII,
                 str_connection = via_str, unicode_connection = via_unicode\<rparr>"

definition hello :: envelope where
  "hello = \<lparr>in_connection = \<lparr>backend = ''demo-backend'', identity = PyUnicode [43, 49, 53, 53, 53]\<rparr>,
            in_text = PyUnicode [104, 101, 108, 108, 111], handled = False, responses = [],
            processed = False, db_message_pk = 1\<rparr>"

definition hi_back :: reply where
  "hi_back = \<lparr>out_connection = \<lparr>backend = ''demo-backend'', identity = PyUnicode [43, 49, 53, 53, 53]\<rparr>,
              out_text = PyStr ''hi back''\<rparr>"

definition cafe :: db_message where
  "cafe = \<lparr>pk = 1,
            msg_connection = \<lparr>backend = ''demo-backend'', identity = PyUnicode [43, 49, 53, 53, 53]\<rparr>,
            msg_text = PyUnicode [99, 97, 102, 233], direction = CHR ''O'', status = CHR ''P'',
            in_response_to = None\<rparr>"

definition pending_state :: state where
  "pending_state = \<lparr>backends = [''demo-backend''],
     connections = [\<lparr>backend = ''demo-backend'', identity = PyUnicode [43, 49, 53, 53, 53]\<rparr>],
     messages = [1 \<mapsto> cafe], next_pk = 2, log = []\<rparr>"

definition faulty_run :: "(exn + db_message) \<times> state" where
  "faulty_run = handle_incoming (gateway 202) [faulty_app, echo_app] ''demo-backend''
     (PyUnicode [43, 49, 53, 53, 53]) (PyUnicode [104, 101, 108, 108, 111]) empty_state"

definition echo_run :: "(exn + db_message) \<times> state" where
  "echo_run = handle_incoming (gateway 202) [echo_app] ''demo-backend''
     (PyUnicode [43, 49, 53, 53, 53]) (PyUnicode [104, 101, 108, 108, 111]) empty_state"

definition cafe_run :: "(exn + db_message) \<times> state" where
  "cafe_run = handle_incoming (gateway 202) [echo_app] ''demo-backend''
     (PyUnicode [43, 49, 53, 53, 53]) (PyUnicode [99, 97, 102, 233]) empty_state"

definition cafe_utf8_run :: "(exn + db_message) \<times> state" where
  "cafe_utf8_run = handle_incoming ((gateway 202)\<lparr>stdout_encoding := UTF8\<rparr>) [echo_app]
     ''demo-backend'' (PyUnicode [43, 49, 53, 53, 53]) (PyUnicode [99, 97, 102, 233]) empty_state"

definition veto_run :: "(exn + db_message) \<times> state" where
  "veto_run = handle_incoming (gateway 202) [base_app ''first'', veto_app, echo_app] ''demo-backend''
     (PyUnicode [43, 49, 53, 53, 53]) (PyUnicode [104, 101, 108, 108, 111]) empty_state"


definition cancel_run :: "(exn + outgoing_result) \<times> state" where
  "cancel_run = handle_outgoing (gateway 202) [base_app ''a'', cancel_app, base_app ''c'']
     hi_back None empty_state"


lemmas example_defs = base_app_def respond_def echo_app_def veto_app_def faulty_app_def
  cancel_app_def zero_app_def truthy_app_def hi_back_def cafe_def pending_state_def empty_state_def
  via_str_def via_unicode_def gateway_def no_gateway_def

lemmas router_defs = handle_incoming_def handle_outgoing_def send_message_def add_message_def
  add_outgoing_def message_create_def backend_get_or_create_def connection_get_or_create_def
  save_def new_envelope_def incoming_phases_def is_True_def is_False_def router_url_def
  router_url_unset_def build_params_def trace_def vetoed_def creating_connection_def
  incoming_line_def unicode_of_def str_bool_def Let_def

section \<open>Facts about traces\<close>

lemma calls_in_append: "calls_in ph (xs @ ys) = calls_in ph xs @ calls_in ph ys"
  by (induction ph xs rule: calls_in.induct) auto



lemma hooks_follow_append:
  "hooks_follow xs \<Longrightarrow> hooks_follow ys \<Longrightarrow> hooks_follow (xs @ ys)"
  by (induction xs rule: hooks_follow.induct) (auto split: option.splits list.splits event.splits)

lemma is_veto_iff: "is_veto ev \<longleftrightarrow> (\<exists>n. ev = Call n Filter (Return (PyBool True)))"
  by (induction ev rule: is_veto.induct) auto

lemma vetoed_iff: "vetoed evs \<longleftrightarrow> (\<exists>n. Call n Filter (Return (PyBool True)) \<in> set evs)"
  by (auto simp: vetoed_def list_ex_iff is_veto_iff)

lemma vetoed_append: "vetoed (xs @ ys) \<longleftrightarrow> vetoed xs \<or> vetoed ys"
  by (auto simp: vetoed_def)

lemma calls_in_no_call: "\<forall>ev \<in> set evs. \<not> is_call ev \<Longrightarrow> calls_in ph evs = []"
  by (induction ph evs rule: calls_in.induct) auto

lemma vetoed_no_call: "\<forall>ev \<in> set evs. \<not> is_call ev \<Longrightarrow> \<not> vetoed evs"
  by (auto simp: vetoed_iff)

lemma trace_append: "log st' = log st @ evs \<Longrightarrow> trace st st' = evs"
  by (simp add: trace_def)

lemma calm_append: "calm (xs @ ys) = calm xs @ calm ys"
  by (simp add: calm_def)

section \<open>One inbound phase\<close>

lemma run_apps_hooks: "run_apps ph as msg = (sig, msg', evs) \<Longrightarrow> hooks_follow evs"
proof (induction as arbitrary: msg sig msg' evs)
  case Nil
  then show ?case by simp
next
  case (Cons a as)
  obtain out msg1 where g: "getattr a ph msg = (out, msg1)" by (cases "getattr a ph msg")
  obtain sig2 msg2 evs2 where r: "run_apps ph as msg1 = (sig2, msg2, evs2)"
    by (cases "run_apps ph as msg1")
  from Cons.IH [OF r] have h2: "hooks_follow evs2" .
  show ?case
  proof (cases out)
    case (Return v)
    with Cons.prems g r h2 show ?thesis
      by (auto split: if_splits)
  next
    case (Raise e)
    with Cons.prems g r h2 show ?thesis
      by (auto split: if_splits simp: is_True_def)
  qed
qed

text \<open>One phase: the events belong to that phase only.\<close>

lemma run_apps_other_phase:
  "run_apps ph as msg = (sig, msg', evs) \<Longrightarrow> ph' \<noteq> ph \<Longrightarrow> calls_in ph' evs = []"
proof (induction as arbitrary: msg sig msg' evs)
  case Nil
  then show ?case by simp
next
  case (Cons a as)
  obtain out msg1 where g: "getattr a ph msg = (out, msg1)" by (cases "getattr a ph msg")
  obtain sig2 msg2 evs2 where r: "run_apps ph as msg1 = (sig2, msg2, evs2)"
    by (cases "run_apps ph as msg1")
  from Cons.IH [OF r Cons.prems(2)] have h2: "calls_in ph' evs2 = []" .
  from Cons.prems g r h2 show ?case
    by (cases out) (auto split: if_splits simp: calls_in_append)
qed

lemma run_apps_members:
  "run_apps ph as msg = (sig, msg', evs) \<Longrightarrow> ev \<in> set evs \<Longrightarrow>
     (\<exists>n out. ev = Call n ph out) \<or> (\<exists>n. ev = ExceptionHook n)"
proof (induction as arbitrary: msg sig msg' evs)
  case Nil
  then show ?case by simp
next
  case (Cons a as)
  obtain out msg1 where g: "getattr a ph msg = (out, msg1)" by (cases "getattr a ph msg")
  obtain sig2 msg2 evs2 where r: "run_apps ph as msg1 = (sig2, msg2, evs2)"
    by (cases "run_apps ph as msg1")
  note ih = Cons.IH [OF r]
  from Cons.prems g r ih show ?case
    by (cases out) (auto split: if_splits)
qed

lemma run_apps_members_call:
  "run_apps ph as msg = (sig, msg', evs) \<Longrightarrow> ev \<in> set evs \<Longrightarrow>
     is_call ev \<or> (\<exists>n. ev = ExceptionHook n)"
  using run_apps_members [of ph as msg sig msg' evs ev] by auto

text \<open>The apps are called in the order of the list, up to the one that ends the loop.\<close>

lemma run_apps_prefix:
  "run_apps ph as msg = (sig, msg', evs) \<Longrightarrow>
     \<exists>k \<le> length as. calls_in ph evs = map app_name (take k as)"
proof (induction as arbitrary: msg sig msg' evs)
  case Nil
  then show ?case by simp
next
  case (Cons a as)
  obtain out msg1 where g: "getattr a ph msg = (out, msg1)" by (cases "getattr a ph msg")
  obtain sig2 msg2 evs2 where r: "run_apps ph as msg1 = (sig2, msg2, evs2)"
    by (cases "run_apps ph as msg1")
  from Cons.IH [OF r] obtain k where k: "k \<le> length as" "calls_in ph evs2 = map app_name (take k as)"
    by blast
  have one: "calls_in ph evs = [app_name a] \<or> calls_in ph evs = app_name a # calls_in ph evs2"
    using Cons.prems g r by (cases out) (auto split: if_splits simp: calls_in_append)
  then show ?case
  proof
    assume "calls_in ph evs = [app_name a]"
    then have "calls_in ph evs = map app_name (take (Suc 0) (a # as))" by simp
    then show ?thesis by (intro exI [of _ "Suc 0"]) simp
  next
    assume "calls_in ph evs = app_name a # calls_in ph evs2"
    with k have "calls_in ph evs = map app_name (take (Suc k) (a # as))" by simp
    with k(1) show ?thesis by (intro exI [of _ "Suc k"]) simp
  qed
qed

text \<open>A loop that no call ends with \<open>True\<close> calls every app.\<close>

lemma run_apps_all:
  "run_apps ph as msg = (sig, msg', evs) \<Longrightarrow>
   \<forall>n. Call n ph (Return (PyBool True)) \<notin> set evs \<Longrightarrow>
     calls_in ph evs = map app_name as \<and> sig = Completed"
proof (induction as arbitrary: msg sig msg' evs)
  case Nil
  then show ?case by simp
next
  case (Cons a as)
  obtain out msg1 where g: "getattr a ph msg = (out, msg1)" by (cases "getattr a ph msg")
  obtain sig2 msg2 evs2 where r: "run_apps ph as msg1 = (sig2, msg2, evs2)"
    by (cases "run_apps ph as msg1")
  note ih = Cons.IH [OF r]
  show ?case
  proof (cases out)
    case (Return v)
    with Cons.prems g r have nt: "\<not> is_True v"
      by (auto simp: is_True_def split: if_splits)
    with Return Cons.prems g r have e: "evs = Call (app_name a) ph out # evs2" "sig = sig2"
      by auto
    with Cons.prems(2) have "\<forall>n. Call n ph (Return (PyBool True)) \<notin> set evs2" by auto
    from ih [OF this] e show ?thesis by simp
  next
    case (Raise x)
    with Cons.prems g r have e: "evs = Call (app_name a) ph out # ExceptionHook (app_name a) # evs2"
      "sig = sig2"
      by (auto simp: is_True_def)
    with Cons.prems(2) have "\<forall>n. Call n ph (Return (PyBool True)) \<notin> set evs2" by auto
    from ih [OF this] e show ?thesis by simp
  qed
qed

text \<open>The parse and cleanup loops never end early.\<close>

lemma run_apps_no_short_circuit:
  "run_apps ph as msg = (sig, msg', evs) \<Longrightarrow> ph = Parse \<or> ph = Cleanup \<Longrightarrow>
     calls_in ph evs = map app_name as \<and> sig = Completed"
proof (induction as arbitrary: msg sig msg' evs)
  case Nil
  then show ?case by simp
next
  case (Cons a as)
  obtain out msg1 where g: "getattr a ph msg = (out, msg1)" by (cases "getattr a ph msg")
  obtain sig2 msg2 evs2 where r: "run_apps ph as msg1 = (sig2, msg2, evs2)"
    by (cases "run_apps ph as msg1")
  note ih = Cons.IH [OF r Cons.prems(2)]
  from Cons.prems g r ih show ?case
    by (cases out) (auto simp: calls_in_append)
qed

text \<open>A call that returns \<open>True\<close> in the filter, handle or default phase is the last.\<close>

lemma run_apps_true_last:
  "run_apps ph as msg = (sig, msg', evs) \<Longrightarrow> Call n ph (Return (PyBool True)) \<in> set evs \<Longrightarrow>
   ph = Filter \<or> ph = Handle \<or> ph = Default \<Longrightarrow>
     evs \<noteq> [] \<and> last evs = Call n ph (Return (PyBool True))"
proof (induction as arbitrary: msg sig msg' evs)
  case Nil
  then show ?case by simp
next
  case (Cons a as)
  obtain out msg1 where g: "getattr a ph msg = (out, msg1)" by (cases "getattr a ph msg")
  obtain sig2 msg2 evs2 where r: "run_apps ph as msg1 = (sig2, msg2, evs2)"
    by (cases "run_apps ph as msg1")
  note ih = Cons.IH [OF r _ Cons.prems(3)]
  show ?case
  proof (cases out)
    case (Return v)
    show ?thesis
    proof (cases "is_True v")
      case True
      with Return Cons.prems g have "evs = [Call (app_name a) ph out]"
        by (auto split: if_splits)
      with Cons.prems(2) show ?thesis by auto
    next
      case False
      with Return Cons.prems g r have e: "evs = Call (app_name a) ph out # evs2"
        by auto
      with Cons.prems(2) False Return have "Call n ph (Return (PyBool True)) \<in> set evs2"
        by (auto simp: is_True_def)
      from ih [OF this] e show ?thesis by simp
    qed
  next
    case (Raise x)
    with Cons.prems g r have e: "evs = Call (app_name a) ph out # ExceptionHook (app_name a) # evs2"
      by (auto simp: is_True_def)
    with Cons.prems(2) Raise have "Call n ph (Return (PyBool True)) \<in> set evs2" by auto
    from ih [OF this] e show ?thesis by simp
  qed
qed

text \<open>The filter loop raises \<^verbatim>\<open>StopIteration\<close> exactly when a call returns \<open>True\<close>.\<close>

lemma run_apps_stopped:
  "run_apps ph as msg = (sig, msg', evs) \<Longrightarrow>
     sig = Stopped \<longleftrightarrow> ph = Filter \<and> (\<exists>n. Call n Filter (Return (PyBool True)) \<in> set evs)"
proof (induction as arbitrary: msg sig msg' evs)
  case Nil
  then show ?case by auto
next
  case (Cons a as)
  obtain out msg1 where g: "getattr a ph msg = (out, msg1)" by (cases "getattr a ph msg")
  obtain sig2 msg2 evs2 where r: "run_apps ph as msg1 = (sig2, msg2, evs2)"
    by (cases "run_apps ph as msg1")
  note ih = Cons.IH [OF r]
  have mem: "\<And>ev. ev \<in> set evs2 \<Longrightarrow> (\<exists>n out. ev = Call n ph out) \<or> (\<exists>n. ev = ExceptionHook n)"
    using run_apps_members [OF r] by blast
  show ?case
  proof (cases out)
    case (Return v)
    with Cons.prems g r ih mem show ?thesis
      by (cases "is_True v") (auto simp: is_True_def split: if_splits)
  next
    case (Raise x)
    with Cons.prems g r ih show ?thesis
      by (auto simp: is_True_def)
  qed
qed

lemma run_apps_completed: "run_apps ph as msg = (sig, msg', evs) \<Longrightarrow> ph \<noteq> Filter \<Longrightarrow> sig = Completed"
  using run_apps_stopped [of ph as msg sig msg' evs] by (cases sig) auto

text \<open>The handle loop sets the flag when a call returns \<open>True\<close>.\<close>

lemma run_apps_handle_flag:
  "run_apps Handle as msg = (sig, msg', evs) \<Longrightarrow>
   Call n Handle (Return (PyBool True)) \<in> set evs \<Longrightarrow> handled msg'"
proof (induction as arbitrary: msg sig msg' evs)
  case Nil
  then show ?case by simp
next
  case (Cons a as)
  obtain out msg1 where g: "getattr a Handle msg = (out, msg1)" by (cases "getattr a Handle msg")
  obtain sig2 msg2 evs2 where r: "run_apps Handle as msg1 = (sig2, msg2, evs2)"
    by (cases "run_apps Handle as msg1")
  note ih = Cons.IH [OF r]
  show ?case
  proof (cases out)
    case (Return v)
    with Cons.prems g r ih show ?thesis
      by (cases "is_True v") (auto simp: is_True_def split: if_splits)
  next
    case (Raise x)
    with Cons.prems g r ih show ?thesis
      by (auto simp: is_True_def)
  qed
qed

lemma run_apps_not_vetoed: "run_apps ph as msg = (Completed, msg', evs) \<Longrightarrow> \<not> vetoed evs"
proof
  assume r: "run_apps ph as msg = (Completed, msg', evs)" and "vetoed evs"
  then obtain n where n: "Call n Filter (Return (PyBool True)) \<in> set evs"
    by (auto simp: vetoed_iff)
  from run_apps_members [OF r n] have "ph = Filter" by auto
  with run_apps_stopped [OF r] n show False by auto
qed

lemma run_apps_vetoed: "run_apps Filter as msg = (Stopped, msg', evs) \<Longrightarrow> vetoed evs"
  using run_apps_stopped [of Filter as msg Stopped msg' evs] by (auto simp: vetoed_iff)

lemma run_apps_filter_all:
  assumes "run_apps Filter as msg = (Completed, msg', evs)"
  shows "calls_in Filter evs = map app_name as"
proof -
  from run_apps_stopped [OF assms] have "\<forall>n. Call n Filter (Return (PyBool True)) \<notin> set evs"
    by auto
  from run_apps_all [OF assms this] show ?thesis by simp
qed

text \<open>A call that returns anything but \<open>True\<close> leaves the loop to the next handler.\<close>

lemma run_apps_continues:
  assumes "getattr a ph msg = (Return v, msg1)" and "v \<noteq> PyBool True"
  shows "run_apps ph (a # as) msg =
    (fst (run_apps ph as msg1), fst (snd (run_apps ph as msg1)),
     Call (app_name a) ph (Return v) # snd (snd (run_apps ph as msg1)))"
  using assms by (simp add: is_True_def split: prod.splits)

lemma getattr_absorb: "getattr (absorb a) ph = absorb_method (getattr a ph)"
  by (cases ph) (simp_all add: absorb_def)

lemma run_apps_absorb:
  "run_apps ph as msg = (sig, msg', evs) \<Longrightarrow>
     run_apps ph (map absorb as) msg = (sig, msg', calm evs)"
proof (induction as arbitrary: msg sig msg' evs)
  case Nil
  then show ?case by (simp add: calm_def)
next
  case (Cons a as)
  obtain out msg1 where g: "getattr a ph msg = (out, msg1)" by (cases "getattr a ph msg")
  obtain sig2 msg2 evs2 where r: "run_apps ph as msg1 = (sig2, msg2, evs2)"
    by (cases "run_apps ph as msg1")
  note ih = Cons.IH [OF r]
  have n: "app_name (absorb a) = app_name a" by (simp add: absorb_def)
  show ?case
  proof (cases out)
    case (Return v)
    with Cons.prems g r ih n show ?thesis
      by (auto simp: getattr_absorb absorb_method_def absorb_outcome_def calm_def
          split: if_splits)
  next
    case (Raise x)
    with Cons.prems g r ih n show ?thesis
      by (auto simp: getattr_absorb absorb_method_def absorb_outcome_def calm_def is_True_def
          split: if_splits)
  qed
qed

lemma getattr_falsify:
  "getattr (falsify a) ph =
     (if ph = Filter \<or> ph = Handle then falsify_method (getattr a ph) else getattr a ph)"
  by (cases ph) (simp_all add: falsify_def)

lemma is_True_as_false: "is_True (as_false v) = is_True v"
  by (simp add: as_false_def is_True_def)

lemma run_apps_falsify:
  "run_apps ph as msg = (sig, msg', evs) \<Longrightarrow>
     run_apps ph (map falsify as) msg = (sig, msg', map falsify_event evs)"
proof (induction as arbitrary: msg sig msg' evs)
  case Nil
  then show ?case by simp
next
  case (Cons a as)
  obtain out msg1 where g: "getattr a ph msg = (out, msg1)" by (cases "getattr a ph msg")
  obtain sig2 msg2 evs2 where r: "run_apps ph as msg1 = (sig2, msg2, evs2)"
    by (cases "run_apps ph as msg1")
  note ih = Cons.IH [OF r]
  have n: "app_name (falsify a) = app_name a" by (simp add: falsify_def)
  show ?case
  proof (cases out)
    case (Return v)
    show ?thesis
    proof (cases "ph = Filter \<or> ph = Handle")
      case True
      with Return Cons.prems g r ih n show ?thesis
        by (auto simp: getattr_falsify falsify_method_def falsify_outcome_def is_True_as_false
            split: if_splits)
    next
      case False
      with Return Cons.prems g r ih n show ?thesis
        by (auto simp: getattr_falsify split: if_splits)
    qed
  next
    case (Raise x)
    with Cons.prems g r ih n show ?thesis
      by (auto simp: getattr_falsify falsify_method_def falsify_outcome_def is_True_def
          split: if_splits)
  qed
qed

section \<open>The five inbound phases\<close>

lemma run_phases_hooks: "run_phases phs as msg = (msg', evs) \<Longrightarrow> hooks_follow evs"
proof (induction phs arbitrary: msg msg' evs)
  case Nil
  then show ?case by simp
next
  case (Cons ph phs)
  show ?case
  proof (cases "ph = Default \<and> handled msg")
    case True
    with Cons.prems show ?thesis by auto
  next
    case False
    obtain sig msg1 evs1 where r: "run_apps ph as msg = (sig, msg1, evs1)"
      by (cases "run_apps ph as msg")
    obtain msg2 evs2 where p: "run_phases phs as msg1 = (msg2, evs2)"
      by (cases "run_phases phs as msg1")
    from run_apps_hooks [OF r] have h1: "hooks_follow evs1" .
    from Cons.IH [OF p] have h2: "hooks_follow evs2" .
    from False Cons.prems r p h1 h2 show ?thesis
      by (cases sig) (auto simp: hooks_follow_append)
  qed
qed

text \<open>The three ways through the five phases: a veto, a handled message, a full run.\<close>

lemma run_phases_incoming_cases:
  assumes "run_phases incoming_phases apps msg = (msg', evs)"
  obtains
    (veto) "run_apps Filter apps msg = (Stopped, msg', evs)"
  | (handled) m1 e1 m2 e2 e3 where
      "run_apps Filter apps msg = (Completed, m1, e1)"
      "run_apps Parse apps m1 = (Completed, m2, e2)"
      "run_apps Handle apps m2 = (Completed, msg', e3)"
      "handled msg'" "evs = e1 @ e2 @ e3"
  | (full) m1 e1 m2 e2 m3 e3 m4 e4 e5 where
      "run_apps Filter apps msg = (Completed, m1, e1)"
      "run_apps Parse apps m1 = (Completed, m2, e2)"
      "run_apps Handle apps m2 = (Completed, m3, e3)"
      "\<not> handled m3"
      "run_apps Default apps m3 = (Completed, m4, e4)"
      "run_apps Cleanup apps m4 = (Completed, msg', e5)"
      "evs = e1 @ e2 @ e3 @ e4 @ e5"
proof -
  obtain s1 m1 e1 where r1: "run_apps Filter apps msg = (s1, m1, e1)"
    by (cases "run_apps Filter apps msg")
  obtain s2 m2 e2 where r2: "run_apps Parse apps m1 = (s2, m2, e2)"
    by (cases "run_apps Parse apps m1")
  obtain s3 m3 e3 where r3: "run_apps Handle apps m2 = (s3, m3, e3)"
    by (cases "run_apps Handle apps m2")
  obtain s4 m4 e4 where r4: "run_apps Default apps m3 = (s4, m4, e4)"
    by (cases "run_apps Default apps m3")
  obtain s5 m5 e5 where r5: "run_apps Cleanup apps m4 = (s5, m5, e5)"
    by (cases "run_apps Cleanup apps m4")
  have c: "s2 = Completed" "s3 = Completed" "s4 = Completed" "s5 = Completed"
    using run_apps_completed [OF r2] run_apps_completed [OF r3]
      run_apps_completed [OF r4] run_apps_completed [OF r5] by simp_all
  show thesis
  proof (cases s1)
    case Stopped
    with assms r1 have "msg' = m1" "evs = e1" by (simp_all add: incoming_phases_def)
    with r1 Stopped veto show thesis by simp
  next
    case Completed
    show thesis
    proof (cases "handled m3")
      case True
      with assms r1 r2 r3 c Completed have "msg' = m3" "evs = e1 @ e2 @ e3"
        by (simp_all add: incoming_phases_def)
      with r1 r2 r3 c Completed True handled show thesis by simp
    next
      case False
      with assms r1 r2 r3 r4 r5 c Completed have "msg' = m5" "evs = e1 @ e2 @ e3 @ e4 @ e5"
        by (simp_all add: incoming_phases_def)
      with r1 r2 r3 r4 r5 c Completed False full show thesis by simp
    qed
  qed
qed

text \<open>Without a veto every app is called in the filter and in the parse phase.\<close>

lemma run_phases_not_vetoed:
  assumes "run_phases incoming_phases apps msg = (msg', evs)" and "\<not> vetoed evs"
  shows "calls_in Filter evs = map app_name apps" and "calls_in Parse evs = map app_name apps"
proof -
  have "calls_in Filter evs = map app_name apps \<and> calls_in Parse evs = map app_name apps"
    using assms(1)
  proof (cases rule: run_phases_incoming_cases)
    case veto
    from run_apps_vetoed [OF veto] assms(2) show ?thesis by simp
  next
    case (handled m1 e1 m2 e2 e3)
    from run_apps_filter_all [OF handled(1)] run_apps_no_short_circuit [OF handled(2)]
      run_apps_other_phase [OF handled(1), of Parse] run_apps_other_phase [OF handled(2), of Filter]
      run_apps_other_phase [OF handled(3), of Parse] run_apps_other_phase [OF handled(3), of Filter]
      handled(5)
    show ?thesis by (simp add: calls_in_append)
  next
    case (full m1 e1 m2 e2 m3 e3 m4 e4 e5)
    from run_apps_filter_all [OF full(1)] run_apps_no_short_circuit [OF full(2)]
      run_apps_other_phase [OF full(1), of Parse] run_apps_other_phase [OF full(2), of Filter]
      run_apps_other_phase [OF full(3), of Parse] run_apps_other_phase [OF full(3), of Filter]
      run_apps_other_phase [OF full(5), of Parse] run_apps_other_phase [OF full(5), of Filter]
      run_apps_other_phase [OF full(6), of Parse] run_apps_other_phase [OF full(6), of Filter]
      full(7)
    show ?thesis by (simp add: calls_in_append)
  qed
  then show "calls_in Filter evs = map app_name apps" and "calls_in Parse evs = map app_name apps"
    by simp_all
qed

text \<open>After a veto only the filter phase has run, and the vetoing call is the last event.\<close>

lemma run_phases_vetoed:
  assumes "run_phases incoming_phases apps msg = (msg', evs)" and "vetoed evs"
  shows "run_apps Filter apps msg = (Stopped, msg', evs)"
  using assms(1)
proof (cases rule: run_phases_incoming_cases)
  case veto
  then show ?thesis .
next
  case (handled m1 e1 m2 e2 e3)
  from run_apps_not_vetoed [OF handled(1)] run_apps_not_vetoed [OF handled(2)]
    run_apps_not_vetoed [OF handled(3)] handled(5) assms(2)
  show ?thesis by (simp add: vetoed_append)
next
  case (full m1 e1 m2 e2 m3 e3 m4 e4 e5)
  from run_apps_not_vetoed [OF full(1)] run_apps_not_vetoed [OF full(2)]
    run_apps_not_vetoed [OF full(3)] run_apps_not_vetoed [OF full(5)]
    run_apps_not_vetoed [OF full(6)] full(7) assms(2)
  show ?thesis by (simp add: vetoed_append)
qed

lemma run_phases_members:
  assumes "run_phases incoming_phases apps msg = (msg', evs)" and "ev \<in> set evs"
  shows "is_call ev \<or> (\<exists>n. ev = ExceptionHook n)"
  using assms(1)
proof (cases rule: run_phases_incoming_cases)
  case veto
  from run_apps_members_call [OF veto assms(2)] show ?thesis .
next
  case (handled m1 e1 m2 e2 e3)
  with assms(2) have "ev \<in> set e1 \<or> ev \<in> set e2 \<or> ev \<in> set e3" by auto
  with run_apps_members_call [OF handled(1)] run_apps_members_call [OF handled(2)]
    run_apps_members_call [OF handled(3)]
  show ?thesis by blast
next
  case (full m1 e1 m2 e2 m3 e3 m4 e4 e5)
  with assms(2) have "ev \<in> set e1 \<or> ev \<in> set e2 \<or> ev \<in> set e3 \<or> ev \<in> set e4 \<or> ev \<in> set e5"
    by auto
  with run_apps_members_call [OF full(1)] run_apps_members_call [OF full(2)]
    run_apps_members_call [OF full(3)] run_apps_members_call [OF full(5)]
    run_apps_members_call [OF full(6)]
  show ?thesis by blast
qed

lemma run_phases_absorb:
  "run_phases phs as msg = (msg', evs) \<Longrightarrow>
     run_phases phs (map absorb as) msg = (msg', calm evs)"
proof (induction phs arbitrary: msg msg' evs)
  case Nil
  then show ?case by (simp add: calm_def)
next
  case (Cons ph phs)
  show ?case
  proof (cases "ph = Default \<and> handled msg")
    case True
    with Cons.prems show ?thesis by (auto simp: calm_def)
  next
    case False
    obtain sig msg1 evs1 where r: "run_apps ph as msg = (sig, msg1, evs1)"
      by (cases "run_apps ph as msg")
    obtain msg2 evs2 where p: "run_phases phs as msg1 = (msg2, evs2)"
      by (cases "run_phases phs as msg1")
    from False Cons.prems r p run_apps_absorb [OF r] Cons.IH [OF p] show ?thesis
      by (cases sig) (auto simp: calm_append)
  qed
qed

lemma run_phases_falsify:
  "run_phases phs as msg = (msg', evs) \<Longrightarrow>
     run_phases phs (map falsify as) msg = (msg', map falsify_event evs)"
proof (induction phs arbitrary: msg msg' evs)
  case Nil
  then show ?case by simp
next
  case (Cons ph phs)
  show ?case
  proof (cases "ph = Default \<and> handled msg")
    case True
    with Cons.prems show ?thesis by auto
  next
    case False
    obtain sig msg1 evs1 where r: "run_apps ph as msg = (sig, msg1, evs1)"
      by (cases "run_apps ph as msg")
    obtain msg2 evs2 where p: "run_phases phs as msg1 = (msg2, evs2)"
      by (cases "run_phases phs as msg1")
    from False Cons.prems r p run_apps_falsify [OF r] Cons.IH [OF p] show ?thesis
      by (cases sig) auto
  qed
qed

text \<open>
  In general: without a veto the cleanup methods are called, all of them, exactly when
  the message is not handled when the default phase is reached.
\<close>

lemma cleanup_calls:
  assumes "run_phases incoming_phases apps msg = (msg', evs)" and "\<not> vetoed evs"
  shows "calls_in Cleanup evs =
    (if handled (fst (run_phases [Filter, Parse, Handle] apps msg)) then [] else map app_name apps)"
  using assms(1)
proof (cases rule: run_phases_incoming_cases)
  case veto
  from run_apps_vetoed [OF veto] assms(2) show ?thesis by simp
next
  case (handled m1 e1 m2 e2 e3)
  have "calls_in Cleanup evs = []"
    using run_apps_other_phase [OF handled(1), of Cleanup]
      run_apps_other_phase [OF handled(2), of Cleanup]
      run_apps_other_phase [OF handled(3), of Cleanup] handled(5)
    by (simp add: calls_in_append)
  moreover have "handled (fst (run_phases [Filter, Parse, Handle] apps msg))"
    using handled(1,2,3,4) by simp
  ultimately show ?thesis by simp
next
  case (full m1 e1 m2 e2 m3 e3 m4 e4 e5)
  have "calls_in Cleanup evs = calls_in Cleanup e5"
    using run_apps_other_phase [OF full(1), of Cleanup]
      run_apps_other_phase [OF full(2), of Cleanup]
      run_apps_other_phase [OF full(3), of Cleanup]
      run_apps_other_phase [OF full(5), of Cleanup] full(7)
    by (simp add: calls_in_append)
  moreover have "calls_in Cleanup e5 = map app_name apps"
    using run_apps_no_short_circuit [OF full(6)] by simp
  moreover have "\<not> handled (fst (run_phases [Filter, Parse, Handle] apps msg))"
    using full(1,2,3,4) by simp
  ultimately show ?thesis by simp
qed

section \<open>The outgoing phase and delivery\<close>

lemma run_outgoing_members:
  "run_outgoing as cs msg = (ok, msg', evs) \<Longrightarrow> ev \<in> set evs \<Longrightarrow>
     (\<exists>n out. ev = CallOutgoing n out) \<or> (\<exists>n. ev = ExceptionHook n)"
proof (induction as arbitrary: cs msg ok msg' evs)
  case Nil
  then show ?case by simp
next
  case (Cons a as)
  obtain out msg1 where g: "app_outgoing a msg = (out, msg1)" by (cases "app_outgoing a msg")
  show ?case
  proof (cases out)
    case (Return v)
    obtain ok2 msg2 evs2 where r: "run_outgoing as v msg1 = (ok2, msg2, evs2)"
      by (cases "run_outgoing as v msg1")
    from Return Cons.prems g r Cons.IH [OF r] show ?thesis
      by (auto split: if_splits)
  next
    case (Raise x)
    obtain ok2 msg2 evs2 where r: "run_outgoing as cs msg1 = (ok2, msg2, evs2)"
      by (cases "run_outgoing as cs msg1")
    from Raise Cons.prems g r Cons.IH [OF r] show ?thesis
      by (auto split: if_splits)
  qed
qed

lemma run_outgoing_no_call:
  "run_outgoing as cs msg = (ok, msg', evs) \<Longrightarrow> ev \<in> set evs \<Longrightarrow> \<not> is_call ev"
  using run_outgoing_members [of as cs msg ok msg' evs ev] by auto

lemma run_outgoing_no_send:
  "run_outgoing as cs msg = (ok, msg', evs) \<Longrightarrow> SendMessage k \<notin> set evs"
  using run_outgoing_members [of as cs msg ok msg' evs "SendMessage k"] by auto

lemma run_outgoing_hooks: "run_outgoing as cs msg = (ok, msg', evs) \<Longrightarrow> hooks_follow evs"
proof (induction as arbitrary: cs msg ok msg' evs)
  case Nil
  then show ?case by simp
next
  case (Cons a as)
  obtain out msg1 where g: "app_outgoing a msg = (out, msg1)" by (cases "app_outgoing a msg")
  show ?case
  proof (cases out)
    case (Return v)
    obtain ok2 msg2 evs2 where r: "run_outgoing as v msg1 = (ok2, msg2, evs2)"
      by (cases "run_outgoing as v msg1")
    from Return Cons.prems g r Cons.IH [OF r] show ?thesis
      by (auto split: if_splits)
  next
    case (Raise x)
    obtain ok2 msg2 evs2 where r: "run_outgoing as cs msg1 = (ok2, msg2, evs2)"
      by (cases "run_outgoing as cs msg1")
    from Raise Cons.prems g r Cons.IH [OF r] show ?thesis
      by (auto split: if_splits)
  qed
qed


text \<open>
  Started with a value that is not \<open>False\<close>, the loop cancels exactly when a call returns
  \<open>False\<close>, and that call is its last event.
\<close>

lemma run_outgoing_cancel:
  "run_outgoing as cs msg = (ok, msg', evs) \<Longrightarrow> \<not> is_False cs \<Longrightarrow>
     (\<not> ok \<longleftrightarrow> (\<exists>n. CallOutgoing n (Return (PyBool False)) \<in> set evs)) \<and>
     (\<forall>n. CallOutgoing n (Return (PyBool False)) \<in> set evs \<longrightarrow>
        evs \<noteq> [] \<and> last evs = CallOutgoing n (Return (PyBool False)))"
proof (induction as arbitrary: cs msg ok msg' evs)
  case Nil
  then show ?case by auto
next
  case (Cons a as)
  obtain out msg1 where g: "app_outgoing a msg = (out, msg1)" by (cases "app_outgoing a msg")
  show ?case
  proof (cases out)
    case (Return v)
    show ?thesis
    proof (cases "is_False v")
      case True
      with Return Cons.prems g have "evs = [CallOutgoing (app_name a) (Return (PyBool False))]"
        "\<not> ok"
        by (auto simp: is_False_def)
      then show ?thesis by auto
    next
      case False
      obtain ok2 msg2 evs2 where r: "run_outgoing as v msg1 = (ok2, msg2, evs2)"
        by (cases "run_outgoing as v msg1")
      from False Return Cons.prems g r have e: "evs = CallOutgoing (app_name a) out # evs2"
        "ok = ok2" by auto
      from Cons.IH [OF r False] e False Return show ?thesis
        by (auto simp: is_False_def)
    qed
  next
    case (Raise x)
    obtain ok2 msg2 evs2 where r: "run_outgoing as cs msg1 = (ok2, msg2, evs2)"
      by (cases "run_outgoing as cs msg1")
    from Raise Cons.prems g r
    have e: "evs = CallOutgoing (app_name a) out # ExceptionHook (app_name a) # evs2" "ok = ok2"
      by auto
    from Cons.IH [OF r Cons.prems(2)] e Raise show ?thesis
      by auto
  qed
qed

lemma quote_params_error: "quote_params kvs = Inl e \<Longrightarrow> e = UnicodeEncodeError"
proof (induction kvs)
  case Nil
  then show ?case by simp
next
  case (Cons kv kvs)
  obtain k v where kv: "kv = (k, v)" by (cases kv)
  have "str_param v = Inl e' \<Longrightarrow> e' = UnicodeEncodeError" for e'
  proof (cases v)
    case (TextParam t)
    assume "str_param v = Inl e'"
    with TextParam show ?thesis by (cases t) (auto split: if_splits)
  next
    case (IntParam i)
    assume "str_param v = Inl e'"
    with IntParam show ?thesis by simp
  qed
  with Cons kv show ?case
    by (auto split: sum.splits)
qed

lemma send_message_log:
  "send_message cfg kw m st = (res, st') \<Longrightarrow> log st' = log st @ [SendMessage (pk m)]"
  by (auto simp: send_message_def save_def Let_def split: if_splits sum.splits url_outcome.splits)

lemma send_message_next_pk: "send_message cfg kw m st = (res, st') \<Longrightarrow> next_pk st' = next_pk st"
  by (auto simp: send_message_def save_def Let_def split: if_splits sum.splits url_outcome.splits)

lemma send_message_frame:
  "send_message cfg kw m st = (res, st') \<Longrightarrow> k \<noteq> pk m \<Longrightarrow> messages st' k = messages st k"
  by (auto simp: send_message_def save_def Let_def split: if_splits sum.splits url_outcome.splits)

lemma send_message_returns:
  "send_message cfg kw m st = (Inr m', st') \<Longrightarrow>
     messages st' (pk m) = Some m' \<and>
     (m' = m\<lparr>status := CHR ''S''\<rparr> \<or> m' = m\<lparr>status := CHR ''Q''\<rparr>)"
  by (auto simp: send_message_def save_def Let_def split: if_splits sum.splits url_outcome.splits)

lemma send_message_raises:
  "send_message cfg kw m st = (Inl e, st') \<Longrightarrow>
     messages st' = messages st \<and> e = UnicodeEncodeError"
  by (auto simp: send_message_def save_def Let_def quote_params_error
      split: if_splits sum.splits url_outcome.splits)

text \<open>
  \<^verbatim>\<open>send_message\<close> raises exactly when a gateway is configured and a parameter cannot
  be encoded; when it returns, the row is saved as sent for a status code from 200 to
  299 and as queued in every other case (another code, an exception of \<^verbatim>\<open>urlopen\<close>,
  no \<^verbatim>\<open>ROUTER_URL\<close>).
\<close>

lemma div_100_is_2: "(code :: int) div 100 = 2 \<longleftrightarrow> 200 \<le> code \<and> code < 300"
  by presburger

lemma send_message_without_gateway:
  "fst (send_message no_gateway [] cafe pending_state) = Inr (cafe\<lparr>status := CHR ''Q''\<rparr>)"
  by (simp add: router_defs example_defs)

lemma send_message_raises_iff:
  "(\<exists>e. fst (send_message cfg kwargs msg st) = Inl e) \<longleftrightarrow>
     \<not> router_url_unset cfg \<and> (\<exists>e. quote_params (build_params msg kwargs) = Inl e)"
  by (auto simp: send_message_def Let_def split: sum.splits url_outcome.splits)

lemma send_message_status:
  assumes "send_message cfg kwargs msg st = (Inr msg', st')"
  shows "messages st' (pk msg) = Some msg' \<and>
    msg' = msg\<lparr>status :=
      (if \<not> router_url_unset cfg \<and>
          (\<exists>params code. quote_params (build_params msg kwargs) = Inr params \<and>
             urlopen cfg (router_url cfg) params = Response code \<and> 200 \<le> code \<and> code < 300)
       then CHR ''S'' else CHR ''Q'')\<rparr>"
  using assms
  by (auto simp: send_message_def save_def Let_def div_100_is_2
      split: if_splits sum.splits url_outcome.splits)

text \<open>What \<^verbatim>\<open>handle_outgoing\<close> does, by the end of its loop over the apps.\<close>

lemma handle_outgoing_cases:
  assumes "handle_outgoing cfg apps msg src st = (res, st')"
  obtains
    (cancelled) msg1 evs m where
      "run_outgoing (rev apps) (PyBool True) msg = (False, msg1, evs)"
      "res = Inr ReturnedFalse" "log st' = log st @ evs"
      "messages st' = (messages st)(next_pk st \<mapsto> m)"
      "status m = CHR ''C''" "direction m = CHR ''O''"
      "next_pk st' = Suc (next_pk st)"
  | (delivered) msg1 evs m where
      "run_outgoing (rev apps) (PyBool True) msg = (True, msg1, evs)"
      "res = Inr (ReturnedMessage m)" "log st' = log st @ evs @ [SendMessage (next_pk st)]"
      "messages st' = (messages st)(next_pk st \<mapsto> m)"
      "status m = CHR ''S'' \<or> status m = CHR ''Q''" "direction m = CHR ''O''"
      "next_pk st' = Suc (next_pk st)"
  | (raised) msg1 evs m where
      "run_outgoing (rev apps) (PyBool True) msg = (True, msg1, evs)"
      "res = Inl UnicodeEncodeError" "log st' = log st @ evs @ [SendMessage (next_pk st)]"
      "messages st' = (messages st)(next_pk st \<mapsto> m)"
      "status m = CHR ''P''" "direction m = CHR ''O''"
      "next_pk st' = Suc (next_pk st)"
proof -
  obtain ok msg1 evs where r: "run_outgoing (rev apps) (PyBool True) msg = (ok, msg1, evs)"
    by (cases "run_outgoing (rev apps) (PyBool True) msg")
  define dbm where "dbm = \<lparr>pk = next_pk st, msg_connection = out_connection msg,
    msg_text = out_text msg, direction = CHR ''O'', status = CHR ''P'', in_response_to = src\<rparr>"
  define st2 where "st2 = st\<lparr>messages := (messages st)(next_pk st \<mapsto> dbm),
    next_pk := Suc (next_pk st), log := log st @ evs\<rparr>"
  show thesis
  proof (cases ok)
    case False
    with assms r have "res = Inr ReturnedFalse" "st' = save (dbm\<lparr>status := CHR ''C''\<rparr>) st2"
      by (simp_all add: handle_outgoing_def add_outgoing_def message_create_def Let_def
          dbm_def st2_def)
    then have "res = Inr ReturnedFalse" "log st' = log st @ evs"
      "messages st' = (messages st)(next_pk st \<mapsto> dbm\<lparr>status := CHR ''C''\<rparr>)"
      "next_pk st' = Suc (next_pk st)"
      by (simp_all add: save_def st2_def dbm_def)
    with r False cancelled [of msg1 evs "dbm\<lparr>status := CHR ''C''\<rparr>"] show thesis
      by (simp add: dbm_def)
  next
    case True
    obtain sres st3 where s: "send_message cfg [] dbm st2 = (sres, st3)"
      by (cases "send_message cfg [] dbm st2")
    have l3: "log st3 = log st @ evs @ [SendMessage (next_pk st)]"
      using send_message_log [OF s] by (simp add: st2_def dbm_def)
    have n3: "next_pk st3 = Suc (next_pk st)"
      using send_message_next_pk [OF s] by (simp add: st2_def)
    show thesis
    proof (cases sres)
      case (Inl e)
      with assms r True s have "res = Inl e" "st' = st3"
        by (simp_all add: handle_outgoing_def add_outgoing_def message_create_def Let_def
            dbm_def st2_def)
      moreover from send_message_raises [OF s [unfolded Inl]]
      have "messages st3 = (messages st)(next_pk st \<mapsto> dbm)" "e = UnicodeEncodeError"
        by (simp_all add: st2_def)
      ultimately show thesis
        using raised [of msg1 evs dbm] r True l3 n3 by (simp add: dbm_def)
    next
      case (Inr m)
      with assms r True s have "res = Inr (ReturnedMessage m)" "st' = st3"
        by (simp_all add: handle_outgoing_def add_outgoing_def message_create_def Let_def
            dbm_def st2_def)
      moreover from send_message_returns [OF s [unfolded Inr]]
      have m: "messages st3 (next_pk st) = Some m"
        "m = dbm\<lparr>status := CHR ''S''\<rparr> \<or> m = dbm\<lparr>status := CHR ''Q''\<rparr>"
        by (simp_all add: dbm_def)
      have "messages st3 = (messages st)(next_pk st \<mapsto> m)"
      proof
        fix k
        show "messages st3 k = ((messages st)(next_pk st \<mapsto> m)) k"
        proof (cases "k = next_pk st")
          case True
          with m(1) show ?thesis by simp
        next
          case False
          with send_message_frame [OF s, of k] show ?thesis by (simp add: st2_def dbm_def)
        qed
      qed
      moreover from m(2) have "status m = CHR ''S'' \<or> status m = CHR ''Q''" "direction m = CHR ''O''"
        by (auto simp: dbm_def)
      ultimately show thesis
        using delivered [of msg1 evs m] r True l3 n3 by simp
    qed
  qed
qed

lemma handle_outgoing_summary:
  assumes "handle_outgoing cfg apps msg src st = (res, st')"
  shows "\<exists>evs. log st' = log st @ evs \<and> (\<forall>ev \<in> set evs. \<not> is_call ev) \<and> hooks_follow evs \<and>
           (\<forall>e. res = Inl e \<longrightarrow> evs \<noteq> [] \<and> last evs = SendMessage (next_pk st))"
    and "next_pk st' = Suc (next_pk st)"
    and "\<exists>m. messages st' = (messages st)(next_pk st \<mapsto> m) \<and> direction m = CHR ''O'' \<and>
           status m \<noteq> CHR ''H''"
proof -
  have "(\<exists>evs. log st' = log st @ evs \<and> (\<forall>ev \<in> set evs. \<not> is_call ev) \<and> hooks_follow evs \<and>
           (\<forall>e. res = Inl e \<longrightarrow> evs \<noteq> [] \<and> last evs = SendMessage (next_pk st))) \<and>
        next_pk st' = Suc (next_pk st) \<and>
        (\<exists>m. messages st' = (messages st)(next_pk st \<mapsto> m) \<and> direction m = CHR ''O'' \<and>
           status m \<noteq> CHR ''H'')"
    using assms
  proof (cases rule: handle_outgoing_cases)
    case (cancelled msg1 evs m)
    have "\<forall>ev \<in> set evs. \<not> is_call ev" using run_outgoing_no_call [OF cancelled(1)] by blast
    moreover have "hooks_follow evs" by (rule run_outgoing_hooks [OF cancelled(1)])
    ultimately show ?thesis using cancelled by auto
  next
    case (delivered msg1 evs m)
    have "\<forall>ev \<in> set (evs @ [SendMessage (next_pk st)]). \<not> is_call ev"
      using run_outgoing_no_call [OF delivered(1)] by auto
    moreover have "hooks_follow (evs @ [SendMessage (next_pk st)])"
      by (rule hooks_follow_append [OF run_outgoing_hooks [OF delivered(1)]]) simp
    ultimately show ?thesis using delivered by auto
  next
    case (raised msg1 evs m)
    have "\<forall>ev \<in> set (evs @ [SendMessage (next_pk st)]). \<not> is_call ev"
      using run_outgoing_no_call [OF raised(1)] by auto
    moreover have "hooks_follow (evs @ [SendMessage (next_pk st)])"
      by (rule hooks_follow_append [OF run_outgoing_hooks [OF raised(1)]]) simp
    ultimately show ?thesis using raised by auto
  qed
  then show "\<exists>evs. log st' = log st @ evs \<and> (\<forall>ev \<in> set evs. \<not> is_call ev) \<and> hooks_follow evs \<and>
           (\<forall>e. res = Inl e \<longrightarrow> evs \<noteq> [] \<and> last evs = SendMessage (next_pk st))"
    and "next_pk st' = Suc (next_pk st)"
    and "\<exists>m. messages st' = (messages st)(next_pk st \<mapsto> m) \<and> direction m = CHR ''O'' \<and>
           status m \<noteq> CHR ''H''"
    by blast+
qed

text \<open>The replies: only outbound rows are added, and an exception comes out of \<^verbatim>\<open>send_message\<close>.\<close>

lemma send_responses_summary:
  "send_responses cfg apps rs source st = (res, st') \<Longrightarrow>
     (\<exists>evs. log st' = log st @ evs \<and> (\<forall>ev \<in> set evs. \<not> is_call ev) \<and> hooks_follow evs \<and>
        (\<forall>e. res = Inl e \<longrightarrow> evs \<noteq> [] \<and> (\<exists>k. last evs = SendMessage k))) \<and>
     next_pk st \<le> next_pk st' \<and>
     (\<forall>k. k < next_pk st \<or> next_pk st' \<le> k \<longrightarrow> messages st' k = messages st k) \<and>
     (\<forall>k. next_pk st \<le> k \<and> k < next_pk st' \<longrightarrow>
        (\<exists>m. messages st' k = Some m \<and> direction m = CHR ''O'' \<and> status m \<noteq> CHR ''H''))"
proof (induction rs arbitrary: st res st')
  case Nil
  then show ?case by auto
next
  case (Cons r rs)
  obtain res1 st1 where h: "handle_outgoing cfg apps r (Some source) st = (res1, st1)"
    by (cases "handle_outgoing cfg apps r (Some source) st")
  from handle_outgoing_summary [OF h] obtain evs1 m1 where
    l1: "log st1 = log st @ evs1" and c1: "\<forall>ev \<in> set evs1. \<not> is_call ev"
    and k1: "hooks_follow evs1"
    and e1: "\<forall>e. res1 = Inl e \<longrightarrow> evs1 \<noteq> [] \<and> last evs1 = SendMessage (next_pk st)"
    and n1: "next_pk st1 = Suc (next_pk st)"
    and m1: "messages st1 = (messages st)(next_pk st \<mapsto> m1)" "direction m1 = CHR ''O''"
      "status m1 \<noteq> CHR ''H''"
    by blast
  show ?case
  proof (cases res1)
    case (Inl e)
    with Cons.prems h have "res = Inl e" "st' = st1" by simp_all
    with l1 c1 k1 e1 n1 m1 Inl show ?thesis by auto
  next
    case (Inr x)
    with Cons.prems h have s: "send_responses cfg apps rs source st1 = (res, st')" by simp
    from Cons.IH [OF s] obtain evs2 where
      l2: "log st' = log st1 @ evs2" and c2: "\<forall>ev \<in> set evs2. \<not> is_call ev"
      and k2: "hooks_follow evs2"
      and e2: "\<forall>e. res = Inl e \<longrightarrow> evs2 \<noteq> [] \<and> (\<exists>k. last evs2 = SendMessage k)"
      and n2: "next_pk st1 \<le> next_pk st'"
      and f2: "\<forall>k. k < next_pk st1 \<or> next_pk st' \<le> k \<longrightarrow> messages st' k = messages st1 k"
      and m2: "\<forall>k. next_pk st1 \<le> k \<and> k < next_pk st' \<longrightarrow>
        (\<exists>m. messages st' k = Some m \<and> direction m = CHR ''O'' \<and> status m \<noteq> CHR ''H'')"
      by blast
    have a: "\<exists>evs. log st' = log st @ evs \<and> (\<forall>ev \<in> set evs. \<not> is_call ev) \<and> hooks_follow evs \<and>
        (\<forall>e. res = Inl e \<longrightarrow> evs \<noteq> [] \<and> (\<exists>k. last evs = SendMessage k))"
      using l1 l2 c1 c2 e2 hooks_follow_append [OF k1 k2]
      by (intro exI [of _ "evs1 @ evs2"]) auto
    have b: "next_pk st \<le> next_pk st'" using n1 n2 by simp
    have c: "\<forall>k. k < next_pk st \<or> next_pk st' \<le> k \<longrightarrow> messages st' k = messages st k"
      using f2 n1 n2 m1(1) by auto
    have d: "\<forall>k. next_pk st \<le> k \<and> k < next_pk st' \<longrightarrow>
        (\<exists>m. messages st' k = Some m \<and> direction m = CHR ''O'' \<and> status m \<noteq> CHR ''H'')"
    proof (intro allI impI)
      fix k assume k: "next_pk st \<le> k \<and> k < next_pk st'"
      show "\<exists>m. messages st' k = Some m \<and> direction m = CHR ''O'' \<and> status m \<noteq> CHR ''H''"
      proof (cases "k = next_pk st")
        case True
        with f2 n1 m1 show ?thesis by simp
      next
        case False
        with k n1 have "next_pk st1 \<le> k \<and> k < next_pk st'" by simp
        with m2 show ?thesis by blast
      qed
    qed
    from a b c d show ?thesis by blast
  qed
qed

section \<open>The whole inbound dispatch\<close>

lemma py_print_error: "py_print enc x = Some e \<Longrightarrow> e = UnicodeEncodeError"
  by (cases x) (auto split: if_splits)

lemma add_message_result:
  "add_message cfg b sender t d s st = (Inr dbm, st1) \<Longrightarrow>
     pk dbm = next_pk st \<and> direction dbm = CHR ''I'' \<and> status dbm = s \<and>
     messages st1 = (messages st)(next_pk st \<mapsto> dbm) \<and> next_pk st1 = Suc (next_pk st) \<and>
     log st1 = log st"
  by (auto simp: add_message_def backend_get_or_create_def connection_get_or_create_def
      message_create_def Let_def split: if_splits option.splits)

text \<open>When the \<^verbatim>\<open>print\<close> of line 41 raises, no message row has been created.\<close>

lemma add_message_raises:
  "add_message cfg b sender t d s st = (Inl e, st1) \<Longrightarrow>
     e = UnicodeEncodeError \<and> messages st1 = messages st \<and> next_pk st1 = next_pk st \<and>
     log st1 = log st"
  by (auto simp: add_message_def backend_get_or_create_def connection_get_or_create_def
      message_create_def Let_def py_print_error split: if_splits option.splits)

text \<open>
  When one of the two \<^verbatim>\<open>print\<close> statements raises, \<^verbatim>\<open>handle_incoming\<close> raises, no
  handler is called, and the row of the message is missing or left in status \<^verbatim>\<open>'R'\<close>.
\<close>

lemma handle_incoming_print_raises:
  assumes "handle_incoming cfg apps b sender t st = (res, st')"
    and "\<not> prints_return cfg b sender t st"
  shows "res = Inl UnicodeEncodeError \<and> log st' = log st \<and>
    (messages st' (next_pk st) = messages st (next_pk st) \<or>
     (\<exists>m. messages st' (next_pk st) = Some m \<and> status m = CHR ''R''))"
proof -
  obtain r st1 where a: "add_message cfg b sender t CHR ''I'' CHR ''R'' st = (r, st1)"
    by (cases "add_message cfg b sender t CHR ''I'' CHR ''R'' st")
  show ?thesis
  proof (cases r)
    case (Inl e)
    with assms(1) a have "res = Inl e" "st' = st1" by (simp_all add: handle_incoming_def)
    with add_message_raises [OF a [unfolded Inl]] show ?thesis by simp
  next
    case (Inr dbm)
    with assms(2) a obtain e where
      p: "py_print (stdout_encoding cfg) (incoming_line cfg (msg_connection dbm) t) = Some e"
      by (auto simp: prints_return_def)
    with assms(1) a Inr have "res = Inl e" "st' = st1" by (simp_all add: handle_incoming_def)
    with add_message_result [OF a [unfolded Inr]] py_print_error [OF p] show ?thesis by simp
  qed
qed

text \<open>When both return: the phases, the save, and the replies.\<close>

lemma handle_incoming_summary:
  assumes "handle_incoming cfg apps b sender t st = (res, st')"
    and "prints_return cfg b sender t st"
  obtains dbm msg1 evs oevs where
    "run_phases incoming_phases apps (new_envelope dbm t) = (msg1, evs)"
    "log st' = log st @ evs @ oevs" "\<forall>ev \<in> set oevs. \<not> is_call ev" "hooks_follow oevs"
    "messages st' (next_pk st) = Some (dbm\<lparr>status := CHR ''H''\<rparr>)"
    "direction dbm = CHR ''I''" "pk dbm = next_pk st"
    "next_pk st < next_pk st'"
    "\<forall>k. k < next_pk st \<or> next_pk st' \<le> k \<longrightarrow> messages st' k = messages st k"
    "\<forall>k. next_pk st < k \<and> k < next_pk st' \<longrightarrow>
        (\<exists>m. messages st' k = Some m \<and> direction m = CHR ''O'' \<and> status m \<noteq> CHR ''H'')"
    "res = Inr (dbm\<lparr>status := CHR ''H''\<rparr>) \<or>
     (\<exists>e. res = Inl e \<and> oevs \<noteq> [] \<and> (\<exists>k. last oevs = SendMessage k))"
proof -
  from assms(2) obtain dbm st1 where
    a: "add_message cfg b sender t CHR ''I'' CHR ''R'' st = (Inr dbm, st1)"
    and pr: "py_print (stdout_encoding cfg) (incoming_line cfg (msg_connection dbm) t) = None"
    by (auto simp: prints_return_def split: prod.splits sum.splits)
  obtain msg1 evs where p: "run_phases incoming_phases apps (new_envelope dbm t) = (msg1, evs)"
    by (cases "run_phases incoming_phases apps (new_envelope dbm t)")
  define st3 where "st3 = save (dbm\<lparr>status := CHR ''H''\<rparr>) (st1\<lparr>log := log st1 @ evs\<rparr>)"
  obtain sres st4 where
    s: "send_responses cfg apps (responses msg1) (pk dbm) st3 = (sres, st4)"
    by (cases "send_responses cfg apps (responses msg1) (pk dbm) st3")
  from add_message_result [OF a] have
    d: "pk dbm = next_pk st" "direction dbm = CHR ''I''"
    and m1: "messages st1 = (messages st)(next_pk st \<mapsto> dbm)"
    and n1: "next_pk st1 = Suc (next_pk st)" and l1: "log st1 = log st"
    by simp_all
  have st3: "log st3 = log st @ evs" "next_pk st3 = Suc (next_pk st)"
    "messages st3 = (messages st)(next_pk st \<mapsto> dbm\<lparr>status := CHR ''H''\<rparr>)"
    using d m1 n1 l1 by (simp_all add: st3_def save_def)
  from assms(1) a pr p s have r: "st' = st4"
    "res = (case sres of Inl e \<Rightarrow> Inl e | Inr u \<Rightarrow> Inr (dbm\<lparr>status := CHR ''H''\<rparr>))"
    by (auto simp: handle_incoming_def Let_def st3_def split: sum.splits)
  from send_responses_summary [OF s] obtain oevs where
    l4: "log st4 = log st3 @ oevs" and c4: "\<forall>ev \<in> set oevs. \<not> is_call ev"
    and k4: "hooks_follow oevs"
    and e4: "\<forall>e. sres = Inl e \<longrightarrow> oevs \<noteq> [] \<and> (\<exists>k. last oevs = SendMessage k)"
    and n4: "next_pk st3 \<le> next_pk st4"
    and f4: "\<forall>k. k < next_pk st3 \<or> next_pk st4 \<le> k \<longrightarrow> messages st4 k = messages st3 k"
    and m4: "\<forall>k. next_pk st3 \<le> k \<and> k < next_pk st4 \<longrightarrow>
        (\<exists>m. messages st4 k = Some m \<and> direction m = CHR ''O'' \<and> status m \<noteq> CHR ''H'')"
    by blast
  have 1: "log st' = log st @ evs @ oevs" using l4 st3 r by simp
  have 2: "messages st' (next_pk st) = Some (dbm\<lparr>status := CHR ''H''\<rparr>)"
    using f4 st3 r by simp
  have 3: "next_pk st < next_pk st'" using n4 st3 r by simp
  have 4: "\<forall>k. k < next_pk st \<or> next_pk st' \<le> k \<longrightarrow> messages st' k = messages st k"
    using f4 st3 r n4 by auto
  have 5: "\<forall>k. next_pk st < k \<and> k < next_pk st' \<longrightarrow>
        (\<exists>m. messages st' k = Some m \<and> direction m = CHR ''O'' \<and> status m \<noteq> CHR ''H'')"
    using m4 st3 r by auto
  have 6: "res = Inr (dbm\<lparr>status := CHR ''H''\<rparr>) \<or>
     (\<exists>e. res = Inl e \<and> oevs \<noteq> [] \<and> (\<exists>k. last oevs = SendMessage k))"
    using e4 r by (cases sres) auto
  from that [OF p 1 c4 k4 2 d(2) d(1) 3 4 5 6] show thesis .
qed

section \<open>Inbound dispatch: the claims\<close>

text \<open>
  Claim C1. Not every inbound dispatch that no handler vetoes ends with the message in
  status \<^verbatim>\<open>'H'\<close>: the \<^verbatim>\<open>print\<close> of line 74 stands before the \<^verbatim>\<open>try\<close> of line 75, and
  it raises on a \<^verbatim>\<open>unicode\<close> text with a character that the encoding of \<^verbatim>\<open>sys.stdout\<close>
  lacks. With \<^verbatim>\<open>sys.stdout\<close> a pipe, the text \<^verbatim>\<open>u'caf\xe9'\<close> makes \<^verbatim>\<open>handle_incoming\<close>
  raise \<^verbatim>\<open>UnicodeEncodeError\<close> to its caller: no handler is called, nothing is vetoed,
  and the one row that was added stays in status \<^verbatim>\<open>'R'\<close>.
\<close>

theorem handle_incoming_raises_on_print:
  "fst cafe_run = Inl UnicodeEncodeError \<and>
   trace empty_state (snd cafe_run) = [] \<and>
   \<not> vetoed (trace empty_state (snd cafe_run)) \<and>
   next_pk (snd cafe_run) = 2 \<and>
   (\<exists>m. messages (snd cafe_run) 1 = Some m \<and> direction m = CHR ''I'' \<and> status m = CHR ''R'')"
  by (simp add: cafe_run_def router_defs example_defs)

text \<open>
  The same message is handled when \<^verbatim>\<open>sys.stdout\<close> encodes with UTF-8; and a contact
  with such a character makes the \<^verbatim>\<open>print\<close> of line 41 raise, before any row of the
  message is created.
\<close>

lemma handle_incoming_utf8_stdout:
  "(\<exists>m. fst cafe_utf8_run = Inr m \<and> status m = CHR ''H'') \<and>
   calls_in Handle (trace empty_state (snd cafe_utf8_run)) = [''echo''] \<and>
   (\<exists>m. messages (snd cafe_utf8_run) 1 = Some m \<and> status m = CHR ''H'')"
  by (simp add: cafe_utf8_run_def router_defs example_defs)

lemma add_message_raises_on_print:
  "fst (add_message (gateway 202) ''demo-backend'' (PyUnicode [74, 111, 115, 233])
     (PyUnicode [104, 101, 108, 108, 111]) CHR ''I'' CHR ''R'' empty_state) = Inl UnicodeEncodeError \<and>
   messages (snd (add_message (gateway 202) ''demo-backend'' (PyUnicode [74, 111, 115, 233])
     (PyUnicode [104, 101, 108, 108, 111]) CHR ''I'' CHR ''R'' empty_state)) 1 = None"
  by (simp add: router_defs example_defs)

text \<open>
  What holds of an inbound dispatch whose two \<^verbatim>\<open>print\<close> statements return and that no
  filter call vetoes, whatever the handlers raise in whatever phase: of the rows that
  \<^verbatim>\<open>handle_incoming\<close> adds, the first is the inbound message and ends in status
  \<^verbatim>\<open>'H'\<close>, every other is the outbound row of a reply and is never in status
  \<^verbatim>\<open>'H'\<close> (so exactly one added row is), and the older rows are untouched. Every call
  that raises is followed at once by the \<^verbatim>\<open>exception\<close> hook of the same handler, the
  loop goes on with the next handler (every handler is called in the filter and in the
  parse phase, and the phases run as they do with handlers that return \<^verbatim>\<open>None\<close> where
  these raise), and an exception reaches the caller only out of \<^verbatim>\<open>send_message\<close> for a
  reply, never out of a handler.
\<close>

lemma handle_incoming_dispatched:
  assumes "handle_incoming cfg apps b sender t st = (res, st')"
    and "prints_return cfg b sender t st"
    and "\<not> vetoed (trace st st')"
  shows "(\<exists>m. messages st' (next_pk st) = Some m \<and> direction m = CHR ''I'' \<and> status m = CHR ''H'') \<and>
    (\<forall>k. next_pk st < k \<and> k < next_pk st' \<longrightarrow>
       (\<exists>m. messages st' k = Some m \<and> direction m = CHR ''O'' \<and> status m \<noteq> CHR ''H'')) \<and>
    (\<forall>k. k < next_pk st \<or> next_pk st' \<le> k \<longrightarrow> messages st' k = messages st k) \<and>
    (\<exists>!k. next_pk st \<le> k \<and> k < next_pk st' \<and>
       (\<exists>m. messages st' k = Some m \<and> status m = CHR ''H'')) \<and>
    hooks_follow (trace st st') \<and>
    calls_in Filter (trace st st') = map app_name apps \<and>
    calls_in Parse (trace st st') = map app_name apps \<and>
    (\<forall>phs msg. run_phases phs (map absorb apps) msg =
       (fst (run_phases phs apps msg), calm (snd (run_phases phs apps msg)))) \<and>
    (\<forall>e. res = Inl e \<longrightarrow> (\<exists>k. last (trace st st') = SendMessage k))"
  using assms(1,2)
proof (cases rule: handle_incoming_summary)
  case (1 dbm msg1 evs oevs)
  have tr: "trace st st' = evs @ oevs" using 1(2) by (simp add: trace_def)
  have nv: "\<not> vetoed evs" using assms(3) tr by (simp add: vetoed_append)
  have co: "calls_in ph oevs = []" for ph by (rule calls_in_no_call [OF 1(3)])
  have a: "\<exists>m. messages st' (next_pk st) = Some m \<and> direction m = CHR ''I'' \<and> status m = CHR ''H''"
    using 1(5,6) by simp
  have b: "hooks_follow (trace st st')"
    unfolding tr by (rule hooks_follow_append [OF run_phases_hooks [OF 1(1)] 1(4)])
  have c: "calls_in Filter (trace st st') = map app_name apps"
    "calls_in Parse (trace st st') = map app_name apps"
    using run_phases_not_vetoed [OF 1(1) nv] co by (simp_all add: tr calls_in_append)
  have d: "\<forall>phs msg. run_phases phs (map absorb apps) msg =
       (fst (run_phases phs apps msg), calm (snd (run_phases phs apps msg)))"
  proof (intro allI)
    fix phs msg
    show "run_phases phs (map absorb apps) msg =
       (fst (run_phases phs apps msg), calm (snd (run_phases phs apps msg)))"
      by (rule run_phases_absorb) simp
  qed
  have e: "\<forall>e. res = Inl e \<longrightarrow> (\<exists>k. last (trace st st') = SendMessage k)"
    using 1(11) by (auto simp: tr)
  have u: "\<exists>!k. next_pk st \<le> k \<and> k < next_pk st' \<and>
       (\<exists>m. messages st' k = Some m \<and> status m = CHR ''H'')"
  proof (rule ex1I [of _ "next_pk st"])
    show "next_pk st \<le> next_pk st \<and> next_pk st < next_pk st' \<and>
       (\<exists>m. messages st' (next_pk st) = Some m \<and> status m = CHR ''H'')"
      using a 1(8) by auto
  next
    fix k
    assume k: "next_pk st \<le> k \<and> k < next_pk st' \<and>
       (\<exists>m. messages st' k = Some m \<and> status m = CHR ''H'')"
    show "k = next_pk st"
    proof (rule ccontr)
      assume "k \<noteq> next_pk st"
      with k have "next_pk st < k \<and> k < next_pk st'" by simp
      with 1(10) k show False by auto
    qed
  qed
  from a 1(10) 1(9) u b c d e show ?thesis by blast
qed

lemma handle_incoming_dispatched_example:
  "\<not> vetoed (trace empty_state (snd faulty_run)) \<and>
   (\<exists>m. messages (snd faulty_run) 1 = Some m \<and> direction m = CHR ''I'' \<and> status m = CHR ''H'') \<and>
   hooks_follow (trace empty_state (snd faulty_run)) \<and>
   calls_in Filter (trace empty_state (snd faulty_run)) = [''faulty'', ''echo''] \<and>
   calls_in Parse (trace empty_state (snd faulty_run)) = [''faulty'', ''echo''] \<and>
   Call ''faulty'' Filter (Raise StopIteration) \<in> set (trace empty_state (snd faulty_run)) \<and>
   ExceptionHook ''faulty'' \<in> set (trace empty_state (snd faulty_run))"
proof -
  have run: "handle_incoming (gateway 202) [faulty_app, echo_app] ''demo-backend''
     (PyUnicode [43, 49, 53, 53, 53]) (PyUnicode [104, 101, 108, 108, 111]) empty_state =
     (fst faulty_run, snd faulty_run)"
    by (simp add: faulty_run_def)
  have pr: "prints_return (gateway 202) ''demo-backend''
     (PyUnicode [43, 49, 53, 53, 53]) (PyUnicode [104, 101, 108, 108, 111]) empty_state"
    by (simp add: prints_return_def router_defs example_defs)
  have nv: "\<not> vetoed (trace empty_state (snd faulty_run))"
    by (simp add: faulty_run_def router_defs example_defs)
  have hook: "ExceptionHook ''faulty'' \<in> set (trace empty_state (snd faulty_run))"
    "Call ''faulty'' Filter (Raise StopIteration) \<in> set (trace empty_state (snd faulty_run))"
    by (simp_all add: faulty_run_def router_defs example_defs)
  have names: "map app_name [faulty_app, echo_app] = [''faulty'', ''echo'']"
    "next_pk empty_state = 1"
    by (simp_all add: example_defs)
  from handle_incoming_dispatched [OF run pr nv] nv hook names show ?thesis
    by simp
qed

text \<open>
  Claim C2. Every handler's parse method is called when no filter call vetoes, but the
  cleanup methods are not: the guard of the default phase leaves the loop over the phases
  with \<^verbatim>\<open>break\<close>, so a message that is handled when the default phase is reached gets no
  cleanup call. Here \<^verbatim>\<open>handle_incoming\<close> runs with one handler, which returns \<open>True\<close>
  in the handle phase; nothing is vetoed, its filter, parse and handle methods are
  called and its cleanup method is not.
\<close>

theorem cleanup_skipped_when_handled:
  "\<not> vetoed (trace empty_state (snd echo_run)) \<and>
   calls_in Filter (trace empty_state (snd echo_run)) = [''echo''] \<and>
   calls_in Parse (trace empty_state (snd echo_run)) = [''echo''] \<and>
   calls_in Handle (trace empty_state (snd echo_run)) = [''echo''] \<and>
   calls_in Cleanup (trace empty_state (snd echo_run)) = []"
  by (simp add: echo_run_def router_defs example_defs)

text \<open>
  Claim C3. If some handler returns \<open>True\<close> in the filter phase, then no parse, handle,
  default or cleanup method is called for that message (and no filter method of a later
  handler: the calls of the filter phase are an initial segment of the registered list),
  and the message is nevertheless saved with status \<^verbatim>\<open>'H'\<close>.
\<close>

theorem filter_veto_skips_phases:
  assumes "handle_incoming cfg apps b sender t st = (res, st')"
    and "vetoed (trace st st')"
  shows "calls_in Parse (trace st st') = [] \<and> calls_in Handle (trace st st') = [] \<and>
    calls_in Default (trace st st') = [] \<and> calls_in Cleanup (trace st st') = [] \<and>
    (\<exists>k \<le> length apps. calls_in Filter (trace st st') = map app_name (take k apps)) \<and>
    (\<exists>m. messages st' (next_pk st) = Some m \<and> direction m = CHR ''I'' \<and> status m = CHR ''H'')"
proof -
  have pr: "prints_return cfg b sender t st"
  proof (rule ccontr)
    assume "\<not> prints_return cfg b sender t st"
    from handle_incoming_print_raises [OF assms(1) this] have "trace st st' = []"
      by (simp add: trace_def)
    with assms(2) show False by (simp add: vetoed_def)
  qed
  from assms(1) pr show ?thesis
proof (cases rule: handle_incoming_summary)
  case (1 dbm msg1 evs oevs)
  have tr: "trace st st' = evs @ oevs" using 1(2) by (simp add: trace_def)
  have co: "calls_in ph oevs = []" for ph by (rule calls_in_no_call [OF 1(3)])
  have "vetoed evs" using assms(2) tr vetoed_no_call [OF 1(3)] by (simp add: vetoed_append)
  from run_phases_vetoed [OF 1(1) this]
  have f: "run_apps Filter apps (new_envelope dbm t) = (Stopped, msg1, evs)" .
  have other: "calls_in ph (trace st st') = []" if "ph \<noteq> Filter" for ph
    using run_apps_other_phase [OF f that] co by (simp add: tr calls_in_append)
  have pre: "\<exists>k \<le> length apps. calls_in Filter (trace st st') = map app_name (take k apps)"
    using run_apps_prefix [OF f] co by (simp add: tr calls_in_append)
  have "\<exists>m. messages st' (next_pk st) = Some m \<and> direction m = CHR ''I'' \<and> status m = CHR ''H''"
    using 1(5,6) by simp
  with other [of Parse] other [of Handle] other [of Default] other [of Cleanup] pre
  show ?thesis by simp
qed
qed

theorem filter_veto_skips_phases_witness:
  "vetoed (trace empty_state (snd veto_run)) \<and>
   calls_in Filter (trace empty_state (snd veto_run)) = [''first'', ''veto''] \<and>
   calls_in Parse (trace empty_state (snd veto_run)) = [] \<and>
   calls_in Handle (trace empty_state (snd veto_run)) = [] \<and>
   calls_in Default (trace empty_state (snd veto_run)) = [] \<and>
   calls_in Cleanup (trace empty_state (snd veto_run)) = [] \<and>
   (\<exists>m. messages (snd veto_run) 1 = Some m \<and> direction m = CHR ''I'' \<and> status m = CHR ''H'')"
proof -
  have run: "handle_incoming (gateway 202) [base_app ''first'', veto_app, echo_app] ''demo-backend''
     (PyUnicode [43, 49, 53, 53, 53]) (PyUnicode [104, 101, 108, 108, 111]) empty_state =
     (fst veto_run, snd veto_run)"
    by (simp add: veto_run_def)
  have v: "vetoed (trace empty_state (snd veto_run))"
    by (simp add: veto_run_def router_defs example_defs)
  have f: "calls_in Filter (trace empty_state (snd veto_run)) = [''first'', ''veto'']"
    by (simp add: veto_run_def router_defs example_defs)
  have n: "next_pk empty_state = 1" by (simp add: example_defs)
  from filter_veto_skips_phases [OF run v] v f n show ?thesis by simp
qed

text \<open>
  Claim C4. If a handler returns \<open>True\<close> in the handle phase, the message is flagged
  handled and the loop over the handlers of that phase ends: no handler registered later
  gets its handle method called (the handle calls are an initial segment of the
  registered list). The default phase that follows finds the flag set and calls no
  default method, so that call is the last event of the dispatch. A default method is
  called only if the flag is false when the default phase is entered: a message that
  enters it handled gets no call at all.
\<close>

theorem handle_short_circuit_default_guard:
  assumes "run_phases incoming_phases apps msg = (msg', evs)"
  shows "(\<forall>n. Call n Handle (Return (PyBool True)) \<in> set evs \<longrightarrow>
       handled msg' \<and> last evs = Call n Handle (Return (PyBool True)) \<and>
       calls_in Default evs = []) \<and>
    (\<exists>k \<le> length apps. calls_in Handle evs = map app_name (take k apps)) \<and>
    (calls_in Default evs \<noteq> [] \<longrightarrow>
       \<not> handled (fst (run_phases [Filter, Parse, Handle] apps msg))) \<and>
    (\<forall>phs m. handled m \<longrightarrow> run_phases (Default # phs) apps m = (m, []))"
proof -
  have d: "\<forall>phs m. handled m \<longrightarrow> run_phases (Default # phs) apps m = (m, [])"
    by simp
  have "(\<forall>n. Call n Handle (Return (PyBool True)) \<in> set evs \<longrightarrow>
       handled msg' \<and> last evs = Call n Handle (Return (PyBool True)) \<and>
       calls_in Default evs = []) \<and>
    (\<exists>k \<le> length apps. calls_in Handle evs = map app_name (take k apps)) \<and>
    (calls_in Default evs \<noteq> [] \<longrightarrow>
       \<not> handled (fst (run_phases [Filter, Parse, Handle] apps msg)))"
    using assms
  proof (cases rule: run_phases_incoming_cases)
    case veto
    have a: "Call n Handle out \<notin> set evs" for n out
      using run_apps_members [OF veto, of "Call n Handle out"] by auto
    have b: "calls_in Handle evs = map app_name (take 0 apps)"
      using run_apps_other_phase [OF veto, of Handle] by simp
    have c: "calls_in Default evs = []"
      using run_apps_other_phase [OF veto, of Default] by simp
    from a b c show ?thesis by blast
  next
    case (handled m1 e1 m2 e2 e3)
    have c: "calls_in Default evs = []"
      using run_apps_other_phase [OF handled(1), of Default]
        run_apps_other_phase [OF handled(2), of Default]
        run_apps_other_phase [OF handled(3), of Default] handled(5)
      by (simp add: calls_in_append)
    have h: "calls_in Handle evs = calls_in Handle e3"
      using run_apps_other_phase [OF handled(1), of Handle]
        run_apps_other_phase [OF handled(2), of Handle] handled(5)
      by (simp add: calls_in_append)
    have b: "\<exists>k \<le> length apps. calls_in Handle evs = map app_name (take k apps)"
      using run_apps_prefix [OF handled(3)] h by simp
    have a: "last evs = Call n Handle (Return (PyBool True))"
      if "Call n Handle (Return (PyBool True)) \<in> set evs" for n
    proof -
      from that handled(5) run_apps_members [OF handled(1), of "Call n Handle (Return (PyBool True))"]
        run_apps_members [OF handled(2), of "Call n Handle (Return (PyBool True))"]
      have "Call n Handle (Return (PyBool True)) \<in> set e3" by auto
      from run_apps_true_last [OF handled(3) this] handled(5) show ?thesis by simp
    qed
    from a b c handled(4) show ?thesis by blast
  next
    case (full m1 e1 m2 e2 m3 e3 m4 e4 e5)
    have h: "calls_in Handle evs = calls_in Handle e3"
      using run_apps_other_phase [OF full(1), of Handle]
        run_apps_other_phase [OF full(2), of Handle]
        run_apps_other_phase [OF full(5), of Handle]
        run_apps_other_phase [OF full(6), of Handle] full(7)
      by (simp add: calls_in_append)
    have b: "\<exists>k \<le> length apps. calls_in Handle evs = map app_name (take k apps)"
      using run_apps_prefix [OF full(3)] h by simp
    have a: "Call n Handle (Return (PyBool True)) \<notin> set evs" for n
    proof
      assume "Call n Handle (Return (PyBool True)) \<in> set evs"
      with full(7) run_apps_members [OF full(1), of "Call n Handle (Return (PyBool True))"]
        run_apps_members [OF full(2), of "Call n Handle (Return (PyBool True))"]
        run_apps_members [OF full(5), of "Call n Handle (Return (PyBool True))"]
        run_apps_members [OF full(6), of "Call n Handle (Return (PyBool True))"]
      have "Call n Handle (Return (PyBool True)) \<in> set e3" by auto
      from run_apps_handle_flag [OF full(3) this] full(4) show False by simp
    qed
    have c: "\<not> handled (fst (run_phases [Filter, Parse, Handle] apps msg))"
      using full(1,2,3,4) by simp
    from a b c show ?thesis by blast
  qed
  with d show ?thesis by blast
qed

theorem handle_short_circuit_default_guard_witness:
  "Call ''echo'' Handle (Return (PyBool True)) \<in>
     set (snd (run_phases incoming_phases [base_app ''first'', echo_app, base_app ''late''] hello)) \<and>
   handled (fst (run_phases incoming_phases [base_app ''first'', echo_app, base_app ''late''] hello)) \<and>
   calls_in Handle (snd (run_phases incoming_phases [base_app ''first'', echo_app, base_app ''late''] hello))
     = [''first'', ''echo''] \<and>
   calls_in Default (snd (run_phases incoming_phases [base_app ''first'', echo_app, base_app ''late''] hello))
     = [] \<and>
   calls_in Default (snd (run_phases incoming_phases [base_app ''first''] hello)) = [''first''] \<and>
   \<not> handled (fst (run_phases [Filter, Parse, Handle] [base_app ''first''] hello))"
proof -
  let ?apps = "[base_app ''first'', echo_app, base_app ''late'']"
  have run: "run_phases incoming_phases ?apps hello =
    (fst (run_phases incoming_phases ?apps hello), snd (run_phases incoming_phases ?apps hello))"
    by simp
  have c: "Call ''echo'' Handle (Return (PyBool True)) \<in> set (snd (run_phases incoming_phases ?apps hello))"
    by (simp add: router_defs example_defs hello_def)
  have h: "calls_in Handle (snd (run_phases incoming_phases ?apps hello)) = [''first'', ''echo'']"
    by (simp add: router_defs example_defs hello_def)
  have run1: "run_phases incoming_phases [base_app ''first''] hello =
    (fst (run_phases incoming_phases [base_app ''first''] hello),
     snd (run_phases incoming_phases [base_app ''first''] hello))"
    by simp
  have d: "calls_in Default (snd (run_phases incoming_phases [base_app ''first''] hello)) = [''first'']"
    by (simp add: router_defs example_defs hello_def)
  from handle_short_circuit_default_guard [OF run] handle_short_circuit_default_guard [OF run1]
    c h d
  show ?thesis by simp
qed

text \<open>
  Claim C9. In the filter and the handle phase only the value \<open>True\<close> itself vetoes or
  short-circuits. A handler that returns any other value, truthy ones such as \<open>1\<close> or a
  non-empty string included, is passed over: the loop goes on with the next handler on
  the message as the handler left it, the filter loop raises \<^verbatim>\<open>StopIteration\<close> exactly
  when a call returned \<open>True\<close>, and the whole dispatch runs as it does when these
  handlers return \<open>False\<close> in place of every value that is not \<open>True\<close>.
\<close>

theorem only_True_short_circuits:
  "(\<forall>a as ph m v m1. getattr a ph m = (Return v, m1) \<and> v \<noteq> PyBool True \<longrightarrow>
      run_apps ph (a # as) m =
        (fst (run_apps ph as m1), fst (snd (run_apps ph as m1)),
         Call (app_name a) ph (Return v) # snd (snd (run_apps ph as m1)))) \<and>
   (fst (run_apps Filter apps msg) = Stopped \<longleftrightarrow>
      (\<exists>n. Call n Filter (Return (PyBool True)) \<in> set (snd (snd (run_apps Filter apps msg))))) \<and>
   run_phases phs (map falsify apps) msg =
     (fst (run_phases phs apps msg), map falsify_event (snd (run_phases phs apps msg)))"
proof -
  have a: "\<forall>a as ph m v m1. getattr a ph m = (Return v, m1) \<and> v \<noteq> PyBool True \<longrightarrow>
      run_apps ph (a # as) m =
        (fst (run_apps ph as m1), fst (snd (run_apps ph as m1)),
         Call (app_name a) ph (Return v) # snd (snd (run_apps ph as m1)))"
    using run_apps_continues by blast
  obtain sig m' evs where r: "run_apps Filter apps msg = (sig, m', evs)"
    by (cases "run_apps Filter apps msg")
  have b: "fst (run_apps Filter apps msg) = Stopped \<longleftrightarrow>
      (\<exists>n. Call n Filter (Return (PyBool True)) \<in> set (snd (snd (run_apps Filter apps msg))))"
    using run_apps_stopped [OF r] r by simp
  have c: "run_phases phs (map falsify apps) msg =
     (fst (run_phases phs apps msg), map falsify_event (snd (run_phases phs apps msg)))"
    by (rule run_phases_falsify) simp
  from a b c show ?thesis by blast
qed

theorem only_True_short_circuits_witness:
  "truthy (PyInt 1) \<and> truthy (PyString ''yes'') \<and>
   getattr truthy_app Filter hello = (Return (PyInt 1), hello) \<and> PyInt 1 \<noteq> PyBool True \<and>
   run_apps Filter (truthy_app # [base_app ''next'']) hello =
     (fst (run_apps Filter [base_app ''next''] hello),
      fst (snd (run_apps Filter [base_app ''next''] hello)),
      Call (app_name truthy_app) Filter (Return (PyInt 1)) #
        snd (snd (run_apps Filter [base_app ''next''] hello))) \<and>
   fst (run_apps Filter [truthy_app, base_app ''next''] hello) = Completed \<and>
   calls_in Filter (snd (run_phases incoming_phases [truthy_app, base_app ''next''] hello))
     = [''truthy'', ''next''] \<and>
   calls_in Handle (snd (run_phases incoming_phases [truthy_app, base_app ''next''] hello))
     = [''truthy'', ''next''] \<and>
   calls_in Default (snd (run_phases incoming_phases [truthy_app, base_app ''next''] hello))
     = [''truthy'', ''next''] \<and>
   \<not> handled (fst (run_phases incoming_phases [truthy_app, base_app ''next''] hello)) \<and>
   run_phases incoming_phases (map falsify [truthy_app, base_app ''next'']) hello =
     (fst (run_phases incoming_phases [truthy_app, base_app ''next''] hello),
      map falsify_event (snd (run_phases incoming_phases [truthy_app, base_app ''next''] hello)))"
proof -
  let ?apps = "[truthy_app, base_app ''next'']"
  have t: "truthy (PyInt 1)" "truthy (PyString ''yes'')" by simp_all
  have f: "\<not> (\<exists>n. Call n Filter (Return (PyBool True)) \<in> set (snd (snd (run_apps Filter ?apps hello))))"
    by (simp add: router_defs example_defs hello_def)
  have c: "calls_in Filter (snd (run_phases incoming_phases ?apps hello)) = [''truthy'', ''next'']"
    "calls_in Handle (snd (run_phases incoming_phases ?apps hello)) = [''truthy'', ''next'']"
    "calls_in Default (snd (run_phases incoming_phases ?apps hello)) = [''truthy'', ''next'']"
    "\<not> handled (fst (run_phases incoming_phases ?apps hello))"
    by (simp_all add: router_defs example_defs hello_def)
  have g: "getattr truthy_app Filter hello = (Return (PyInt 1), hello)" "PyInt 1 \<noteq> PyBool True"
    by (simp_all add: example_defs)
  from only_True_short_circuits [of ?apps hello incoming_phases] f
  have "fst (run_apps Filter ?apps hello) \<noteq> Stopped"
    and e: "run_phases incoming_phases (map falsify ?apps) hello =
     (fst (run_phases incoming_phases ?apps hello),
      map falsify_event (snd (run_phases incoming_phases ?apps hello)))"
    and s: "\<forall>a as ph m v m1. getattr a ph m = (Return v, m1) \<and> v \<noteq> PyBool True \<longrightarrow>
      run_apps ph (a # as) m =
        (fst (run_apps ph as m1), fst (snd (run_apps ph as m1)),
         Call (app_name a) ph (Return v) # snd (snd (run_apps ph as m1)))"
    by blast+
  then have k: "fst (run_apps Filter ?apps hello) = Completed"
    by (cases "fst (run_apps Filter ?apps hello)") simp_all
  from s g have "run_apps Filter (truthy_app # [base_app ''next'']) hello =
     (fst (run_apps Filter [base_app ''next''] hello),
      fst (snd (run_apps Filter [base_app ''next''] hello)),
      Call (app_name truthy_app) Filter (Return (PyInt 1)) #
        snd (snd (run_apps Filter [base_app ''next''] hello)))"
    by blast
  with t c e k g show ?thesis by blast
qed

section \<open>Outbound dispatch and delivery: the claims\<close>



text \<open>
  Claim C6. If a handler signals stop (its outgoing method returns \<open>False\<close>), then
  \<^verbatim>\<open>handle_outgoing\<close> returns \<open>False\<close>, the row of the message is saved with status
  \<^verbatim>\<open>'C'\<close>, that call is the last thing the dispatch does (no later handler of the
  reversed order is consulted), and \<^verbatim>\<open>send_message\<close> is not called.
\<close>

theorem outgoing_stop_cancels:
  assumes "handle_outgoing cfg apps msg src st = (res, st')"
    and "CallOutgoing n (Return (PyBool False)) \<in> set (trace st st')"
  shows "res = Inr ReturnedFalse \<and>
    (\<exists>m. messages st' (next_pk st) = Some m \<and> direction m = CHR ''O'' \<and> status m = CHR ''C'') \<and>
    last (trace st st') = CallOutgoing n (Return (PyBool False)) \<and>
    (\<forall>k. SendMessage k \<notin> set (trace st st'))"
  using assms(1)
proof (cases rule: handle_outgoing_cases)
  case (cancelled msg1 evs m)
  have tr: "trace st st' = evs" using cancelled(3) by (simp add: trace_def)
  have nf: "\<not> is_False (PyBool True)" by (simp add: is_False_def)
  from run_outgoing_cancel [OF cancelled(1) nf] assms(2)
  have "last evs = CallOutgoing n (Return (PyBool False))" by (simp add: tr)
  moreover have "\<forall>k. SendMessage k \<notin> set evs"
    using run_outgoing_no_send [OF cancelled(1)] by simp
  ultimately show ?thesis using cancelled(2,4,5,6) by (simp add: tr)
next
  case (delivered msg1 evs m)
  have tr: "trace st st' = evs @ [SendMessage (next_pk st)]"
    using delivered(3) by (simp add: trace_def)
  have nf: "\<not> is_False (PyBool True)" by (simp add: is_False_def)
  from assms(2) have "CallOutgoing n (Return (PyBool False)) \<in> set evs" by (simp add: tr)
  with run_outgoing_cancel [OF delivered(1) nf] show ?thesis by blast
next
  case (raised msg1 evs m)
  have tr: "trace st st' = evs @ [SendMessage (next_pk st)]"
    using raised(3) by (simp add: trace_def)
  have nf: "\<not> is_False (PyBool True)" by (simp add: is_False_def)
  from assms(2) have "CallOutgoing n (Return (PyBool False)) \<in> set evs" by (simp add: tr)
  with run_outgoing_cancel [OF raised(1) nf] show ?thesis by blast
qed

theorem outgoing_stop_cancels_witness:
  "CallOutgoing ''cancel'' (Return (PyBool False)) \<in> set (trace empty_state (snd cancel_run)) \<and>
   fst cancel_run = Inr ReturnedFalse \<and>
   (\<exists>m. messages (snd cancel_run) 1 = Some m \<and> direction m = CHR ''O'' \<and> status m = CHR ''C'') \<and>
   outgoing_calls (trace empty_state (snd cancel_run)) = [''c'', ''cancel''] \<and>
   SendMessage 1 \<notin> set (trace empty_state (snd cancel_run))"
proof -
  have run: "handle_outgoing (gateway 202) [base_app ''a'', cancel_app, base_app ''c'']
     hi_back None empty_state = (fst cancel_run, snd cancel_run)"
    by (simp add: cancel_run_def)
  have c: "CallOutgoing ''cancel'' (Return (PyBool False)) \<in> set (trace empty_state (snd cancel_run))"
    by (simp add: cancel_run_def router_defs example_defs)
  have o: "outgoing_calls (trace empty_state (snd cancel_run)) = [''c'', ''cancel'']"
    by (simp add: cancel_run_def router_defs example_defs)
  have n: "next_pk empty_state = 1" by (simp add: example_defs)
  from outgoing_stop_cancels [OF run c] c o n show ?thesis by simp
qed



text \<open>
  Claim C7. \<^verbatim>\<open>send_message\<close> does raise to its caller: the parameters are passed through
  \<^verbatim>\<open>str\<close> before the \<^verbatim>\<open>try\<close> block is entered, and \<^verbatim>\<open>str\<close> of a \<^verbatim>\<open>unicode\<close> text with
  a character outside ASCII raises. With a gateway that would answer 202, the message
  with the text \<^verbatim>\<open>u'caf\xe9'\<close> makes \<^verbatim>\<open>send_message\<close> raise \<^verbatim>\<open>UnicodeEncodeError\<close>, and
  its row stays in status \<^verbatim>\<open>'P'\<close>, neither sent nor queued.
\<close>

theorem send_message_raises_on_unicode:
  "fst (send_message (gateway 202) [] cafe pending_state) = Inl UnicodeEncodeError \<and>
   messages (snd (send_message (gateway 202) [] cafe pending_state)) 1 = Some cafe \<and>
   status cafe = CHR ''P''"
  by (simp add: router_defs example_defs)

end
